theory Spec2Isabelle
  imports Complex_Main "HOL-Library.Word"
begin

section \<open>Phonovibrogram pipeline of openhsv (\<^verbatim>\<open>openhsv/analysis/pvg.py\<close>)\<close>

text \<open>
  The module computes, for a high-speed video, a label map of the image grid and a
  per-frame histogram of the segmented pixels over these labels.

  Conventions of the embedding.
  \<^item> numpy arrays are nested lists, outermost axis first; a read outside an array is an
    \<open>IndexError\<close> of the model (the jit-compiled loops do not check bounds, so nothing
    is known about such a read).
  \<^item> A float is the real number it denotes. The functions of this first section compute
    on these reals exactly, without rounding. The functions of the section on floating
    point take the rounding operations of the source as parameters; what is proved of
    them for all operations holds for the \<open>float64\<close> and \<open>float32\<close> arithmetic of the
    source, whatever it rounds to. An infinity can be read there as a real beyond the
    largest float; NaN has no counterpart, so the theorems speak of runs in which no
    NaN arises.
  \<^item> The label map has dtype \<open>int8\<close>: its cells are \<open>8 word\<close>, read with \<open>sint\<close>;
    a store of a 64-bit integer truncates it to its low 8 bits.
  \<^item> Python's \<open>int\<close> parameters (\<open>steps\<close>, the image shape) are \<open>int\<close>.
  \<^item> A raised exception is \<open>Inl\<close> of the error; no partial result survives it.
    \<open>TypeError\<close> stands for an array argument of another rank or dtype than the data
    model's, which the embedding does not follow further.
\<close>

datatype error = ValueError | IndexError | TypeError

type_synonym int8 = "8 word"

subsection \<open>Array helpers\<close>

definition zeros2 :: "nat \<Rightarrow> nat \<Rightarrow> 'a::zero list list" where
  "zeros2 h w = replicate h (replicate w 0)"

definition zeros3 :: "nat \<Rightarrow> nat \<Rightarrow> nat \<Rightarrow> 'a::zero list list list" where
  "zeros3 k h w = replicate k (zeros2 h w)"

text \<open>\<open>a[y, x] = v\<close> and \<open>a[j, y, x] = v\<close>.\<close>

definition set2 :: "'a list list \<Rightarrow> nat \<Rightarrow> nat \<Rightarrow> 'a \<Rightarrow> 'a list list" where
  "set2 a y x v = a[y := (a ! y)[x := v]]"

definition set3 :: "'a list list list \<Rightarrow> nat \<Rightarrow> nat \<Rightarrow> nat \<Rightarrow> 'a \<Rightarrow> 'a list list list" where
  "set3 a j y x v = a[j := set2 (a ! j) y x v]"

text \<open>\<open>a[y, x]\<close> as a checked read.\<close>

definition get2 :: "'a list list \<Rightarrow> nat \<Rightarrow> nat \<Rightarrow> error + 'a" where
  "get2 a y x = (if y < length a \<and> x < length (a ! y) then Inr (a ! y ! x) else Inl IndexError)"

text \<open>\<open>a[:, y, x]\<close>: the cells at pixel \<open>(y, x)\<close> of every map of a stack.\<close>

fun column :: "'a list list list \<Rightarrow> nat \<Rightarrow> nat \<Rightarrow> error + 'a list" where
  "column [] y x = Inr []"
| "column (m # ms) y x =
     (case get2 m y x of
        Inl e \<Rightarrow> Inl e
      | Inr v \<Rightarrow> (case column ms y x of Inl e \<Rightarrow> Inl e | Inr vs \<Rightarrow> Inr (v # vs)))"

text \<open>A \<open>for\<close> loop over a list of indices whose body may raise.\<close>

fun for_loop :: "'i list \<Rightarrow> ('i \<Rightarrow> 's \<Rightarrow> error + 's) \<Rightarrow> 's \<Rightarrow> error + 's" where
  "for_loop [] body st = Inr st"
| "for_loop (k # ks) body st =
     (case body k st of Inl e \<Rightarrow> Inl e | Inr st' \<Rightarrow> for_loop ks body st')"

text \<open>Python's \<open>range(n)\<close> for an \<open>int\<close>: empty when \<open>n \<le> 0\<close>.\<close>

definition range_py :: "int \<Rightarrow> nat list" where
  "range_py n = [0..<nat n]"

subsection \<open>\<open>numpy.linspace\<close>, \<open>numpy.argmin\<close>\<close>

text \<open>
  \<open>numpy.linspace(start, stop, num)\<close> with the default \<open>endpoint=True\<close>, after numpy's
  implementation: a negative \<open>num\<close> raises \<open>ValueError\<close>; otherwise
  \<open>y = arange(0, num)\<close> is scaled by \<open>step = (stop - start) / (num - 1)\<close> when
  \<open>num - 1 > 0\<close> (by \<open>stop - start\<close> otherwise), shifted by \<open>start\<close>, and the last
  cell is overwritten with \<open>stop\<close> when \<open>num > 1\<close>.
\<close>

definition linspace :: "real \<Rightarrow> real \<Rightarrow> int \<Rightarrow> error + real list" where
  "linspace start stop num =
     (if num < 0 then Inl ValueError
      else
        let n = nat num;
            dv = n - 1;
            delta = stop - start;
            y0 = map real [0..<n];
            y1 = (if dv > 0 then map (\<lambda>v. v * (delta / real dv)) y0
                  else map (\<lambda>v. v * delta) y0);
            y2 = map (\<lambda>v. v + start) y1;
            y3 = (if n > 1 then y2[n - 1 := stop] else y2)
        in Inr y3)"

text \<open>
  \<open>numpy.argmin\<close> of a one-dimensional float array as the jit compiler implements it:
  \<open>ValueError\<close> on an empty array; otherwise one pass that keeps the running minimum
  and replaces it only by a strictly smaller cell.
\<close>

fun argmin_from :: "real list \<Rightarrow> nat \<Rightarrow> real \<Rightarrow> nat \<Rightarrow> nat" where
  "argmin_from [] idx min_value min_idx = min_idx"
| "argmin_from (v # vs) idx min_value min_idx =
     (if v < min_value then argmin_from vs (Suc idx) v idx
      else argmin_from vs (Suc idx) min_value min_idx)"

definition argmin :: "real list \<Rightarrow> error + nat" where
  "argmin arry = (case arry of [] \<Rightarrow> Inl ValueError | v # _ \<Rightarrow> Inr (argmin_from arry 0 v 0))"

subsection \<open>\<open>_find_orthogonal_points\<close>\<close>

text \<open>
  With exact arithmetic the orthogonal slope \<open>tan (arctan coef - pi / 2)\<close> is
  \<open>- 1 / coef\<close> for \<open>coef \<noteq> 0\<close>. At \<open>coef = 0\<close> the tangent of HOL is 0 at \<open>- pi / 2\<close>,
  while the source takes the tangent of the \<open>float64\<close> nearest to \<open>- pi / 2\<close>, a large
  finite number: there the slope of the exact function is not the one of the source,
  which is the orthogonal slope of the floating-point function below.
\<close>

definition find_orthogonal_points ::
  "real \<Rightarrow> real \<Rightarrow> real \<Rightarrow> real \<Rightarrow> int \<Rightarrow> error + (real list \<times> real list \<times> real \<times> real list)" where
  "find_orthogonal_points x_low x_high coef intercept steps =
     (let alpha = arctan coef;
          coef_orth = tan (alpha - pi / 2)
      in case linspace x_low x_high steps of
           Inl e \<Rightarrow> Inl e
         | Inr xs \<Rightarrow>
             let ys = map (\<lambda>x. coef * x + intercept) xs;
                 intercepts_orth = map2 (\<lambda>y x. y - coef_orth * x) ys xs
             in Inr (xs, ys, coef_orth, intercepts_orth))"

subsection \<open>\<open>_create_maps\<close>\<close>

text \<open>
  \<open>numpy.zeros\<close> raises \<open>ValueError\<close> on a negative dimension. The three nested loops
  then store \<open>y - (c * x + i[j])\<close> into cell \<open>(j, y, x)\<close>.
\<close>

definition create_maps :: "int \<times> int \<Rightarrow> real \<Rightarrow> real list \<Rightarrow> error + real list list list" where
  "create_maps im_shape c i =
     (if fst im_shape < 0 \<or> snd im_shape < 0 then Inl ValueError
      else
        let labels = zeros3 (length i) (nat (fst im_shape)) (nat (snd im_shape))
        in Inr (fold (\<lambda>j. fold (\<lambda>y. fold (\<lambda>x labels.
                        set3 labels j y x (real y - (c * real x + i ! j)))
                      (range_py (snd im_shape)))
                    (range_py (fst im_shape)))
                  [0..<length i] labels))"

subsection \<open>\<open>_find_parts\<close>\<close>

text \<open>
  The body of the inner loop at pixel \<open>(i, j)\<close>: the 64-bit value
  \<open>sign * (closest_to + 1)\<close>, and its store into the \<open>int8\<close> array \<open>labels\<close>.
\<close>

definition pixel_label ::
  "real list list list \<Rightarrow> real list list \<Rightarrow> nat \<Rightarrow> nat \<Rightarrow> error + int" where
  "pixel_label labels_parallel labels_LR i j =
     (case get2 labels_LR i j of
        Inl e \<Rightarrow> Inl e
      | Inr lr \<Rightarrow>
          (let sign = (if 0 \<le> lr then (1::int) else (- 1))
           in (case column labels_parallel i j of
                 Inl e \<Rightarrow> Inl e
               | Inr col \<Rightarrow>
                   (case argmin (map (\<lambda>d. sqrt (d ^ 2)) col) of
                      Inl e \<Rightarrow> Inl e
                    | Inr closest_to \<Rightarrow> Inr (sign * (int closest_to + 1))))))"

definition find_parts_pixel ::
  "real list list list \<Rightarrow> real list list \<Rightarrow> nat \<Rightarrow> nat \<Rightarrow> int8 list list \<Rightarrow> error + int8 list list" where
  "find_parts_pixel labels_parallel labels_LR i j labels =
     (case pixel_label labels_parallel labels_LR i j of
        Inl e \<Rightarrow> Inl e
      | Inr v \<Rightarrow> Inr (set2 labels i j (word_of_int v)))"

definition find_parts ::
  "int \<times> int \<Rightarrow> real list list list \<Rightarrow> real list list \<Rightarrow> error + int8 list list" where
  "find_parts im_shape labels_parallel labels_LR =
     (if fst im_shape < 0 \<or> snd im_shape < 0 then Inl ValueError
      else
        for_loop (range_py (fst im_shape))
          (\<lambda>i. for_loop (range_py (snd im_shape))
                  (\<lambda>j. find_parts_pixel labels_parallel labels_LR i j))
          (zeros2 (nat (fst im_shape)) (nat (snd im_shape))))"

subsection \<open>\<open>get_labels\<close>\<close>

definition get_labels ::
  "real \<Rightarrow> real \<Rightarrow> real \<Rightarrow> real \<Rightarrow> int \<times> int \<Rightarrow> int \<Rightarrow> error + int8 list list" where
  "get_labels x_low x_high coef intercept image_shape steps =
     (case find_orthogonal_points x_low x_high coef intercept steps of
        Inl e \<Rightarrow> Inl e
      | Inr (xs, ys, coef_orth, intercepts_orth) \<Rightarrow>
          (case create_maps image_shape coef_orth intercepts_orth of
             Inl e \<Rightarrow> Inl e
           | Inr labels_parallel \<Rightarrow>
               (case create_maps image_shape coef [intercept] of
                  Inl e \<Rightarrow> Inl e
                | Inr lr_stack \<Rightarrow>
                    find_parts image_shape labels_parallel (lr_stack ! 0))))"

subsection \<open>\<open>compute_pvg\<close>\<close>

text \<open>
  The segmentation stack \<open>s\<close> is a boolean array of shape \<open>(T, H, W)\<close>, the label
  stack an integer array read by value (\<open>numpy\<close> promotes both sides of \<open>==\<close> to a
  common integer type, so the comparison is the one of the integers). The cells of the
  result are pixel counts, which its \<open>float64\<close> cells hold exactly.
\<close>

definition shape2 :: "'a list list \<Rightarrow> nat \<times> nat" where
  "shape2 a = (length a, (case a of [] \<Rightarrow> 0 | r # _ \<Rightarrow> length r))"

text \<open>numpy's broadcasting of two dimensions: equal, or one of them is 1.\<close>

definition broadcast_dim :: "nat \<Rightarrow> nat \<Rightarrow> error + nat" where
  "broadcast_dim a b =
     (if a = b then Inr a else if a = 1 then Inr b else if b = 1 then Inr a else Inl ValueError)"

definition bget :: "'a list list \<Rightarrow> nat \<Rightarrow> nat \<Rightarrow> 'a" where
  "bget a y x = a ! (if fst (shape2 a) = 1 then 0 else y) ! (if snd (shape2 a) = 1 then 0 else x)"

text \<open>\<open>f & m\<close> on two-dimensional boolean arrays.\<close>

definition and2 :: "bool list list \<Rightarrow> bool list list \<Rightarrow> error + bool list list" where
  "and2 f m =
     (case broadcast_dim (fst (shape2 f)) (fst (shape2 m)) of
        Inl e \<Rightarrow> Inl e
      | Inr h \<Rightarrow>
          (case broadcast_dim (snd (shape2 f)) (snd (shape2 m)) of
             Inl e \<Rightarrow> Inl e
           | Inr w \<Rightarrow> Inr (map (\<lambda>y. map (\<lambda>x. bget f y x \<and> bget m y x) [0..<w]) [0..<h])))"

text \<open>\<open>a == j\<close> and \<open>a.sum()\<close> for a boolean array: the number of true cells.\<close>

definition eq2 :: "int list list \<Rightarrow> int \<Rightarrow> bool list list" where
  "eq2 a j = map (map (\<lambda>v. v = j)) a"

definition sum2 :: "bool list list \<Rightarrow> nat" where
  "sum2 a = sum_list (map (\<lambda>r. length (filter (\<lambda>b. b) r)) a)"

text \<open>
  The label of every bin: \<open>arange(1, 2 * steps + 1)\<close>, its first \<open>steps\<close> cells
  reversed, its other cells \<open>v\<close> replaced by \<open>-(v - steps)\<close>.
\<close>

definition all_steps :: "int \<Rightarrow> int list" where
  "all_steps steps =
     (let a0 = [1..steps * 2];
          n = nat steps;
          a1 = rev (take n a0) @ drop n a0;
          a2 = take n a1 @ map (\<lambda>v. - (v - steps)) (drop n a1)
      in a2)"

text \<open>The body of the loop over the frames; the state is \<open>(pvg, l)\<close>.\<close>

definition pvg_frame ::
  "bool list list list \<Rightarrow> int list list list \<Rightarrow> int \<Rightarrow> nat \<Rightarrow>
   nat list list \<times> bool list list list \<Rightarrow> error + (nat list list \<times> bool list list list)" where
  "pvg_frame s labels steps frame st =
     (let f = s ! frame
      in (case for_loop (enumerate 0 (all_steps steps))
                 (\<lambda>(i, j) l. if frame < length labels then Inr (l[i := eq2 (labels ! frame) j])
                             else Inl IndexError)
                 (snd st) of
            Inl e \<Rightarrow> Inl e
          | Inr l \<Rightarrow>
              (case for_loop (range_py (steps * 2))
                      (\<lambda>i pvg. case and2 f (l ! i) of
                                 Inl e \<Rightarrow> Inl e
                               | Inr m \<Rightarrow> Inr (set2 pvg frame i (sum2 m)))
                      (fst st) of
                 Inl e \<Rightarrow> Inl e
               | Inr pvg \<Rightarrow> Inr (pvg, l))))"

definition compute_pvg ::
  "bool list list list \<Rightarrow> int list list list \<Rightarrow> int \<Rightarrow> error + nat list list" where
  "compute_pvg s labels steps =
     (if steps < 0 then Inl ValueError
      else
        let pvg = zeros2 (length s) (nat (steps * 2));
            l = replicate (nat (steps * 2))
                  (case labels of [] \<Rightarrow> [] | m # _ \<Rightarrow> map (map (\<lambda>_. False)) m)
        in (case for_loop [0..<length s] (pvg_frame s labels steps) (pvg, l) of
              Inl e \<Rightarrow> Inl e
            | Inr st \<Rightarrow> Inr (fst st)))"

section \<open>The pipeline on a store\<close>

text \<open>
  The arrays of the pipeline as objects of a store. An address is an index into the
  store; \<open>alloc\<close> appends a new object, as \<open>numpy.zeros\<close>, \<open>numpy.linspace\<close> and
  \<open>numpy.arange\<close> do. Every subscript assignment of the source is a write to the store
  at the address of its array, and every subscript read a read of the store at the time
  of the read. Scalars and shape tuples are immutable values; the array of an
  expression that no name keeps (\<open>labels[frame] == j\<close>, \<open>f & l[i]\<close>) is a value too.
\<close>

datatype ndarray =
    Float1 "real list"
  | Float3 "real list list list"
  | Int8_2 "int8 list list"
  | Bool3 "bool list list list"
  | Int3 "int list list list"
  | Int1 "int list"
  | Count2 "nat list list"

type_synonym heap = "ndarray list"

type_synonym addr = nat

definition alloc :: "ndarray \<Rightarrow> heap \<Rightarrow> addr \<times> heap" where
  "alloc a h = (length h, h @ [a])"

fun float1 :: "ndarray \<Rightarrow> real list" where
  "float1 (Float1 a) = a"
| "float1 _ = []"

fun float3 :: "ndarray \<Rightarrow> real list list list" where
  "float3 (Float3 a) = a"
| "float3 _ = []"

fun int8_2 :: "ndarray \<Rightarrow> int8 list list" where
  "int8_2 (Int8_2 a) = a"
| "int8_2 _ = []"

fun bool3 :: "ndarray \<Rightarrow> bool list list list" where
  "bool3 (Bool3 a) = a"
| "bool3 _ = []"

fun int3 :: "ndarray \<Rightarrow> int list list list" where
  "int3 (Int3 a) = a"
| "int3 _ = []"

fun int1 :: "ndarray \<Rightarrow> int list" where
  "int1 (Int1 a) = a"
| "int1 _ = []"

fun count2 :: "ndarray \<Rightarrow> nat list list" where
  "count2 (Count2 a) = a"
| "count2 _ = []"

text \<open>A \<open>for\<close> loop whose state is the store; an exception leaves the store as it is.\<close>

fun for_loop_st ::
  "'i list \<Rightarrow> ('i \<Rightarrow> heap \<Rightarrow> (error + unit) \<times> heap) \<Rightarrow> heap \<Rightarrow> (error + unit) \<times> heap" where
  "for_loop_st [] body h = (Inr (), h)"
| "for_loop_st (k # ks) body h =
     (case body k h of
        (Inl e, h') \<Rightarrow> (Inl e, h')
      | (Inr _, h') \<Rightarrow> for_loop_st ks body h')"

text \<open>\<open>_create_maps(im_shape, c, i)\<close> for an intercept array at address \<open>i\<close>.\<close>

definition create_maps_st :: "int \<times> int \<Rightarrow> real \<Rightarrow> addr \<Rightarrow> heap \<Rightarrow> (error + addr) \<times> heap" where
  "create_maps_st im_shape c i h =
     (case h ! i of
        Float1 iv \<Rightarrow>
          if fst im_shape < 0 \<or> snd im_shape < 0 then (Inl ValueError, h)
          else
            (let labels = fst (alloc (Float3 (zeros3 (length iv) (nat (fst im_shape)) (nat (snd im_shape)))) h);
                 h1 = snd (alloc (Float3 (zeros3 (length iv) (nat (fst im_shape)) (nat (snd im_shape)))) h)
             in (Inr labels,
                  fold (\<lambda>j. fold (\<lambda>y. fold (\<lambda>x h.
                          h[labels := Float3 (set3 (float3 (h ! labels)) j y x
                                       (real y - (c * real x + float1 (h ! i) ! j)))])
                        (range_py (snd im_shape)))
                      (range_py (fst im_shape)))
                    [0..<length iv] h1))
      | _ \<Rightarrow> (Inl TypeError, h))"

text \<open>
  \<open>_find_parts(im_shape, labels_parallel, labels_LR)\<close> for a stack at address
  \<open>labels_parallel\<close> and the view \<open>labels_LR = stack[k]\<close> of the stack at address
  \<open>fst labels_LR\<close>, as \<open>get_labels\<close> passes it.
\<close>

definition find_parts_st ::
  "int \<times> int \<Rightarrow> addr \<Rightarrow> addr \<times> nat \<Rightarrow> heap \<Rightarrow> (error + addr) \<times> heap" where
  "find_parts_st im_shape labels_parallel labels_LR h =
     (case (h ! labels_parallel, h ! fst labels_LR) of
        (Float3 _, Float3 _) \<Rightarrow>
          if fst im_shape < 0 \<or> snd im_shape < 0 then (Inl ValueError, h)
          else
            (let labels = fst (alloc (Int8_2 (zeros2 (nat (fst im_shape)) (nat (snd im_shape)))) h);
                 h1 = snd (alloc (Int8_2 (zeros2 (nat (fst im_shape)) (nat (snd im_shape)))) h)
             in (case for_loop_st (range_py (fst im_shape))
                         (\<lambda>i. for_loop_st (range_py (snd im_shape))
                            (\<lambda>j h.
                               case pixel_label (float3 (h ! labels_parallel))
                                      (float3 (h ! fst labels_LR) ! snd labels_LR) i j of
                                 Inl e \<Rightarrow> (Inl e, h)
                               | Inr v \<Rightarrow>
                                   (Inr (),
                                    h[labels := Int8_2 (set2 (int8_2 (h ! labels)) i j (word_of_int v))])))
                         h1 of
                    (Inl e, h2) \<Rightarrow> (Inl e, h2)
                  | (Inr _, h2) \<Rightarrow> (Inr labels, h2)))
      | _ \<Rightarrow> (Inl TypeError, h))"

definition get_labels_st ::
  "real \<Rightarrow> real \<Rightarrow> real \<Rightarrow> real \<Rightarrow> int \<times> int \<Rightarrow> int \<Rightarrow> heap \<Rightarrow> (error + addr) \<times> heap" where
  "get_labels_st x_low x_high coef intercept image_shape steps h =
     (case find_orthogonal_points x_low x_high coef intercept steps of
        Inl e \<Rightarrow> (Inl e, h)
      | Inr (xs, ys, coef_orth, intercepts_orth) \<Rightarrow>
          (let h1 = snd (alloc (Float1 xs) h);
               h2 = snd (alloc (Float1 ys) h1);
               io_a = fst (alloc (Float1 intercepts_orth) h2);
               h3 = snd (alloc (Float1 intercepts_orth) h2)
           in (case create_maps_st image_shape coef_orth io_a h3 of
                 (Inl e, h4) \<Rightarrow> (Inl e, h4)
               | (Inr labels_parallel, h4) \<Rightarrow>
                   (let ic_a = fst (alloc (Float1 [intercept]) h4);
                        h5 = snd (alloc (Float1 [intercept]) h4)
                    in (case create_maps_st image_shape coef ic_a h5 of
                          (Inl e, h6) \<Rightarrow> (Inl e, h6)
                        | (Inr lr_stack, h6) \<Rightarrow>
                            find_parts_st image_shape labels_parallel (lr_stack, 0) h6)))))"

text \<open>The body of the loop over the frames of \<open>compute_pvg\<close>, on the store.\<close>

definition pvg_frame_st ::
  "addr \<Rightarrow> addr \<Rightarrow> int \<Rightarrow> addr \<Rightarrow> addr \<Rightarrow> addr \<Rightarrow> nat \<Rightarrow> heap \<Rightarrow> (error + unit) \<times> heap" where
  "pvg_frame_st s labels steps pvg l all_st frame h =
     (case for_loop_st (enumerate 0 (int1 (h ! all_st)))
             (\<lambda>(i, j) h.
                if frame < length (int3 (h ! labels))
                then (Inr (), h[l := Bool3 ((bool3 (h ! l))[i := eq2 (int3 (h ! labels) ! frame) j])])
                else (Inl IndexError, h))
             h of
        (Inl e, h1) \<Rightarrow> (Inl e, h1)
      | (Inr _, h1) \<Rightarrow>
          for_loop_st (range_py (steps * 2))
            (\<lambda>i h. case and2 (bool3 (h ! s) ! frame) (bool3 (h ! l) ! i) of
                       Inl e \<Rightarrow> (Inl e, h)
                     | Inr m \<Rightarrow>
                         (Inr (), h[pvg := Count2 (set2 (count2 (h ! pvg)) frame i (sum2 m))]))
            h1)"

definition compute_pvg_st :: "addr \<Rightarrow> addr \<Rightarrow> int \<Rightarrow> heap \<Rightarrow> (error + addr) \<times> heap" where
  "compute_pvg_st s labels steps h =
     (case (h ! s, h ! labels) of
        (Bool3 _, Int3 _) \<Rightarrow>
          if steps < 0 then (Inl ValueError, h)
          else
            (let pvg = fst (alloc (Count2 (zeros2 (length (bool3 (h ! s))) (nat (steps * 2)))) h);
                 h1 = snd (alloc (Count2 (zeros2 (length (bool3 (h ! s))) (nat (steps * 2)))) h);
                 l0 = Bool3 (replicate (nat (steps * 2))
                        (case int3 (h1 ! labels) of [] \<Rightarrow> [] | m # _ \<Rightarrow> map (map (\<lambda>_. False)) m));
                 l = fst (alloc l0 h1);
                 h2 = snd (alloc l0 h1);
                 all_st = fst (alloc (Int1 [1..steps * 2]) h2);
                 h3 = snd (alloc (Int1 [1..steps * 2]) h2);
                 n = nat steps;
                 h4 = h3[all_st := Int1 (rev (take n (int1 (h3 ! all_st))) @ drop n (int1 (h3 ! all_st)))];
                 h5 = h4[all_st := Int1 (take n (int1 (h4 ! all_st)) @
                                         map (\<lambda>v. - (v - steps)) (drop n (int1 (h4 ! all_st))))]
             in (case for_loop_st [0..<length (bool3 (h5 ! s))]
                        (pvg_frame_st s labels steps pvg l all_st) h5 of
                   (Inl e, h6) \<Rightarrow> (Inl e, h6)
                 | (Inr _, h6) \<Rightarrow> (Inr pvg, h6)))
      | _ \<Rightarrow> (Inl TypeError, h))"

text \<open>\<open>extends h h'\<close>: every object of \<open>h\<close> is in \<open>h'\<close>, at its address and unchanged.\<close>

definition extends :: "heap \<Rightarrow> heap \<Rightarrow> bool" where
  "extends h h' \<longleftrightarrow> length h \<le> length h' \<and> take (length h) h' = h"

text \<open>
  A loop on the store simulates a loop on a state \<open>st\<close> when the store is \<open>enc st\<close>
  before and after every iteration.
\<close>

definition sim :: "('s \<Rightarrow> heap) \<Rightarrow> error + 's \<Rightarrow> (error + unit) \<times> heap \<Rightarrow> bool" where
  "sim enc pr hr \<longleftrightarrow>
     (case pr of
        Inl e \<Rightarrow> fst hr = Inl e \<and> (\<exists>st. snd hr = enc st)
      | Inr st' \<Rightarrow> hr = (Inr (), enc st'))"

section \<open>The functions in floating point\<close>

text \<open>
  The functions of the first section compute on exact reals; the floating-point
  operations of the source round. Here the same functions take these operations as
  parameters: \<open>float64\<close> addition, subtraction, multiplication and division, the
  tangent, the arctangent and the constant \<open>pi\<close> of the numeric library, the conversion
  of a \<open>float64\<close> to the \<open>float32\<close> of the distance maps (\<open>f_to32\<close>), and the square
  and the square root that \<open>_find_parts\<close> takes of a \<open>float32\<close> cell (\<open>f_sqr32\<close>,
  \<open>f_sqrt32\<close>). The image coordinates and the sample indices are integers that a
  \<open>float64\<close> holds exactly.
\<close>

record float_ops =
  f_add :: "real \<Rightarrow> real \<Rightarrow> real"
  f_sub :: "real \<Rightarrow> real \<Rightarrow> real"
  f_mul :: "real \<Rightarrow> real \<Rightarrow> real"
  f_div :: "real \<Rightarrow> real \<Rightarrow> real"
  f_tan :: "real \<Rightarrow> real"
  f_arctan :: "real \<Rightarrow> real"
  f_pi :: real
  f_to32 :: "real \<Rightarrow> real"
  f_sqr32 :: "real \<Rightarrow> real"
  f_sqrt32 :: "real \<Rightarrow> real"

text \<open>The operations without rounding.\<close>

definition exact_ops :: float_ops where
  "exact_ops = \<lparr>f_add = (+), f_sub = (-), f_mul = (*), f_div = (/),
                 f_tan = tan, f_arctan = arctan, f_pi = pi,
                 f_to32 = (\<lambda>x. x), f_sqr32 = (\<lambda>x. x ^ 2), f_sqrt32 = sqrt\<rparr>"

text \<open>
  IEEE 754 rounding to nearest, ties to even, to a significand of \<open>p\<close> bits with least
  normal exponent \<open>emin\<close> (gradual underflow; the exponent is not bounded above, so a
  result beyond the largest float stays finite where the source gets an infinity). \<open>float64\<close> is \<open>p = 53\<close>, \<open>emin = -1022\<close>; \<open>float32\<close> is
  \<open>p = 24\<close>, \<open>emin = -126\<close>.
\<close>

definition rne :: "real \<Rightarrow> int" where
  "rne m =
     (let f = \<lfloor>m\<rfloor>
      in if m - of_int f < 1 / 2 then f
         else if 1 / 2 < m - of_int f then f + 1
         else if even f then f else f + 1)"

definition round_float :: "nat \<Rightarrow> int \<Rightarrow> real \<Rightarrow> real" where
  "round_float p emin x =
     (if x = 0 then 0
      else
        let e = max \<lfloor>log 2 \<bar>x\<bar>\<rfloor> emin;
            u = 2 powi (e - int p + 1)
        in of_int (rne (x / u)) * u)"

text \<open>
  The arithmetic of the source with these roundings; the tangent, the arctangent and
  \<open>numpy.pi\<close> of the numeric library stay parameters.
\<close>

definition ieee_ops :: "(real \<Rightarrow> real) \<Rightarrow> (real \<Rightarrow> real) \<Rightarrow> real \<Rightarrow> float_ops" where
  "ieee_ops tn atn p =
     \<lparr>f_add = (\<lambda>a b. round_float 53 (- 1022) (a + b)),
      f_sub = (\<lambda>a b. round_float 53 (- 1022) (a - b)),
      f_mul = (\<lambda>a b. round_float 53 (- 1022) (a * b)),
      f_div = (\<lambda>a b. round_float 53 (- 1022) (a / b)),
      f_tan = tn, f_arctan = atn, f_pi = p,
      f_to32 = round_float 24 (- 126),
      f_sqr32 = (\<lambda>x. round_float 24 (- 126) (x * x)),
      f_sqrt32 = (\<lambda>x. round_float 24 (- 126) (sqrt x))\<rparr>"

text \<open>
  \<open>numpy.linspace\<close> as above, with its branch for a step that is zero (the samples are
  then divided first and multiplied by \<open>stop - start\<close> after).
\<close>

definition linspace_fl :: "float_ops \<Rightarrow> real \<Rightarrow> real \<Rightarrow> int \<Rightarrow> error + real list" where
  "linspace_fl ops start stop num =
     (if num < 0 then Inl ValueError
      else
        let n = nat num;
            dv = n - 1;
            delta = f_sub ops stop start;
            y0 = map real [0..<n];
            step = f_div ops delta (real dv);
            y1 = (if dv > 0
                  then (if step = 0 then map (\<lambda>v. f_mul ops (f_div ops v (real dv)) delta) y0
                        else map (\<lambda>v. f_mul ops v step) y0)
                  else map (\<lambda>v. f_mul ops v delta) y0);
            y2 = map (\<lambda>v. f_add ops v start) y1;
            y3 = (if n > 1 then y2[n - 1 := stop] else y2)
        in Inr y3)"

definition find_orthogonal_points_fl ::
  "float_ops \<Rightarrow> real \<Rightarrow> real \<Rightarrow> real \<Rightarrow> real \<Rightarrow> int \<Rightarrow>
   error + (real list \<times> real list \<times> real \<times> real list)" where
  "find_orthogonal_points_fl ops x_low x_high coef intercept steps =
     (let alpha = f_arctan ops coef;
          coef_orth = f_tan ops (f_sub ops alpha (f_div ops (f_pi ops) 2))
      in case linspace_fl ops x_low x_high steps of
           Inl e \<Rightarrow> Inl e
         | Inr xs \<Rightarrow>
             let ys = map (\<lambda>x. f_add ops (f_mul ops coef x) intercept) xs;
                 intercepts_orth = map2 (\<lambda>y x. f_sub ops y (f_mul ops coef_orth x)) ys xs
             in Inr (xs, ys, coef_orth, intercepts_orth))"

text \<open>
  \<open>_create_maps\<close>: the \<open>float64\<close> value \<open>y - (c * x + i[j])\<close> is stored into a
  \<open>float32\<close> array.
\<close>

definition create_maps_fl ::
  "float_ops \<Rightarrow> int \<times> int \<Rightarrow> real \<Rightarrow> real list \<Rightarrow> error + real list list list" where
  "create_maps_fl ops im_shape c i =
     (if fst im_shape < 0 \<or> snd im_shape < 0 then Inl ValueError
      else
        let labels = zeros3 (length i) (nat (fst im_shape)) (nat (snd im_shape))
        in Inr (fold (\<lambda>j. fold (\<lambda>y. fold (\<lambda>x labels.
                        set3 labels j y x
                          (f_to32 ops (f_sub ops (real y) (f_add ops (f_mul ops c (real x)) (i ! j)))))
                      (range_py (snd im_shape)))
                    (range_py (fst im_shape)))
                  [0..<length i] labels))"

text \<open>\<open>_find_parts\<close>: the square and the square root are those of \<open>float32\<close>.\<close>

definition pixel_label_fl ::
  "float_ops \<Rightarrow> real list list list \<Rightarrow> real list list \<Rightarrow> nat \<Rightarrow> nat \<Rightarrow> error + int" where
  "pixel_label_fl ops labels_parallel labels_LR i j =
     (case get2 labels_LR i j of
        Inl e \<Rightarrow> Inl e
      | Inr lr \<Rightarrow>
          (let sign = (if 0 \<le> lr then (1::int) else (- 1))
           in (case column labels_parallel i j of
                 Inl e \<Rightarrow> Inl e
               | Inr col \<Rightarrow>
                   (case argmin (map (\<lambda>d. f_sqrt32 ops (f_sqr32 ops d)) col) of
                      Inl e \<Rightarrow> Inl e
                    | Inr closest_to \<Rightarrow> Inr (sign * (int closest_to + 1))))))"

definition find_parts_pixel_fl ::
  "float_ops \<Rightarrow> real list list list \<Rightarrow> real list list \<Rightarrow> nat \<Rightarrow> nat \<Rightarrow> int8 list list \<Rightarrow>
   error + int8 list list" where
  "find_parts_pixel_fl ops labels_parallel labels_LR i j labels =
     (case pixel_label_fl ops labels_parallel labels_LR i j of
        Inl e \<Rightarrow> Inl e
      | Inr v \<Rightarrow> Inr (set2 labels i j (word_of_int v)))"

definition find_parts_fl ::
  "float_ops \<Rightarrow> int \<times> int \<Rightarrow> real list list list \<Rightarrow> real list list \<Rightarrow> error + int8 list list" where
  "find_parts_fl ops im_shape labels_parallel labels_LR =
     (if fst im_shape < 0 \<or> snd im_shape < 0 then Inl ValueError
      else
        for_loop (range_py (fst im_shape))
          (\<lambda>i. for_loop (range_py (snd im_shape))
                  (\<lambda>j. find_parts_pixel_fl ops labels_parallel labels_LR i j))
          (zeros2 (nat (fst im_shape)) (nat (snd im_shape))))"

section \<open>Shapes and specification predicates\<close>

text \<open>\<open>is_array2 h w a\<close>: \<open>a\<close> is an array of shape \<open>(h, w)\<close>; \<open>is_array3 k h w a\<close>: a stack
  of \<open>k\<close> such arrays.\<close>

definition is_array2 :: "nat \<Rightarrow> nat \<Rightarrow> 'a list list \<Rightarrow> bool" where
  "is_array2 h w a \<longleftrightarrow> length a = h \<and> (\<forall>r \<in> set a. length r = w)"

definition is_array3 :: "nat \<Rightarrow> nat \<Rightarrow> nat \<Rightarrow> 'a list list list \<Rightarrow> bool" where
  "is_array3 k h w a \<longleftrightarrow> length a = k \<and> (\<forall>m \<in> set a. is_array2 h w m)"

text \<open>\<open>cells3 k h w a f\<close>: \<open>a\<close> has shape \<open>(k, h, w)\<close> and its cell \<open>(j, y, x)\<close> is
  \<open>f j y x\<close>.\<close>

definition cells3 :: "nat \<Rightarrow> nat \<Rightarrow> nat \<Rightarrow> 'a list list list \<Rightarrow> (nat \<Rightarrow> nat \<Rightarrow> nat \<Rightarrow> 'a) \<Rightarrow> bool" where
  "cells3 k h w a f \<longleftrightarrow> is_array3 k h w a \<and> (\<forall>j<k. \<forall>y<h. \<forall>x<w. a ! j ! y ! x = f j y x)"

text \<open>\<open>first_min a k\<close>: \<open>k\<close> is the smallest index of a least cell of \<open>a\<close>, the
  \<open>argmin\<close> of the specification with its tie-break.\<close>

definition first_min :: "real list \<Rightarrow> nat \<Rightarrow> bool" where
  "first_min a k \<longleftrightarrow> k < length a \<and> (\<forall>j<length a. a ! k \<le> a ! j) \<and> (\<forall>j<k. a ! k < a ! j)"

text \<open>The side of the main axis: \<open>+1\<close> when the distance is \<open>\<ge> 0\<close>, else \<open>-1\<close>.\<close>

definition sign_of :: "real \<Rightarrow> int" where
  "sign_of v = (if 0 \<le> v then 1 else - 1)"

text \<open>The \<open>k\<close>-th sample on the axis, and the cells of the distance maps that
  \<open>get_labels\<close> builds: the vertical distance of the pixel \<open>(y, x)\<close> to the orthogonal
  line through sample \<open>k\<close>, and to the axis itself.\<close>

definition sample_x :: "real \<Rightarrow> real \<Rightarrow> int \<Rightarrow> nat \<Rightarrow> real" where
  "sample_x x_low x_high steps k = x_low + real k * ((x_high - x_low) / (real_of_int steps - 1))"

definition orth_distance :: "real \<Rightarrow> real \<Rightarrow> real \<Rightarrow> real \<Rightarrow> int \<Rightarrow> nat \<Rightarrow> nat \<Rightarrow> nat \<Rightarrow> real" where
  "orth_distance x_low x_high coef intercept steps k y x =
     (let coef_orth = tan (arctan coef - pi / 2);
          sx = sample_x x_low x_high steps k;
          sy = coef * sx + intercept
      in real y - (coef_orth * real x + (sy - coef_orth * sx)))"

definition axis_distance :: "real \<Rightarrow> real \<Rightarrow> nat \<Rightarrow> nat \<Rightarrow> real" where
  "axis_distance coef intercept y x = real y - (coef * real x + intercept)"

text \<open>The label of bin \<open>b\<close> in the words of the specification: bins \<open>0..steps-1\<close> map
  to \<open>steps, \<dots>, 1\<close>, bins \<open>steps..2*steps-1\<close> to \<open>-1, \<dots>, -steps\<close>.\<close>

definition label_of_bin :: "int \<Rightarrow> nat \<Rightarrow> int" where
  "label_of_bin steps b = (if int b < steps then steps - int b else - (int b - steps + 1))"

text \<open>The pixels of an \<open>h \<times> w\<close> image; the number of pixels of a frame at which the mask
  \<open>f\<close> is true and the label map \<open>lab\<close> is \<open>j\<close>; and the number of true pixels of a mask.\<close>

definition pixels :: "nat \<Rightarrow> nat \<Rightarrow> (nat \<times> nat) list" where
  "pixels h w = List.product [0..<h] [0..<w]"

definition count_pixels :: "nat \<Rightarrow> nat \<Rightarrow> bool list list \<Rightarrow> int list list \<Rightarrow> int \<Rightarrow> nat" where
  "count_pixels h w f lab j = length (filter (\<lambda>(y, x). f ! y ! x \<and> lab ! y ! x = j) (pixels h w))"

definition popcount :: "nat \<Rightarrow> nat \<Rightarrow> bool list list \<Rightarrow> nat" where
  "popcount h w f = length (filter (\<lambda>(y, x). f ! y ! x) (pixels h w))"


section \<open>Properties of the functions\<close>

subsection \<open>Arrays and loops\<close>

lemma is_array2_zeros2: "is_array2 h w (zeros2 h w)"
  by (simp add: is_array2_def zeros2_def)

lemma is_array3_zeros3: "is_array3 k h w (zeros3 k h w)"
  by (simp add: is_array3_def zeros3_def is_array2_zeros2)

lemma nth_update_any: "xs[i := x] ! j = (if i = j \<and> i < length xs then x else xs ! j)"
  by (cases "i < length xs") (auto simp: nth_list_update list_update_beyond)

lemma is_array2_iff:
  "is_array2 h w a \<longleftrightarrow> length a = h \<and> (\<forall>y < h. length (a ! y) = w)"
  unfolding is_array2_def by (auto simp: all_set_conv_all_nth)

lemma is_array3_iff:
  "is_array3 k h w a \<longleftrightarrow> length a = k \<and> (\<forall>j < k. is_array2 h w (a ! j))"
  unfolding is_array3_def by (auto simp: all_set_conv_all_nth)

lemma is_array2_set2: "is_array2 h w a \<Longrightarrow> is_array2 h w (set2 a y x v)"
  unfolding is_array2_iff set2_def by (auto simp: nth_update_any)

lemma is_array3_set3: "is_array3 k h w a \<Longrightarrow> is_array3 k h w (set3 a j y x v)"
  unfolding is_array3_iff set3_def by (auto simp: nth_update_any is_array2_set2)

lemma nth_set2:
  "is_array2 h w a \<Longrightarrow> y' < h \<Longrightarrow> x' < w \<Longrightarrow>
   set2 a y x v ! y' ! x' = (if y' = y \<and> x' = x then v else a ! y' ! x')"
  unfolding is_array2_iff set2_def by (auto simp: nth_update_any)

lemma nth_set3:
  "is_array3 k h w a \<Longrightarrow> j' < k \<Longrightarrow> y' < h \<Longrightarrow> x' < w \<Longrightarrow>
   set3 a j y x v ! j' ! y' ! x' = (if j' = j \<and> y' = y \<and> x' = x then v else a ! j' ! y' ! x')"
  unfolding is_array3_iff set3_def by (auto simp: nth_update_any nth_set2 is_array2_iff)

lemma for_loop_total:
  assumes "I [] st"
    and "\<And>k ds s. I ds s \<Longrightarrow> k \<in> set ks \<Longrightarrow> \<exists>s'. body k s = Inr s' \<and> I (ds @ [k]) s'"
  shows "\<exists>st'. for_loop ks body st = Inr st' \<and> I ks st'"
proof -
  have "I pre st \<Longrightarrow> set ks' \<subseteq> set ks \<Longrightarrow> \<exists>st'. for_loop ks' body st = Inr st' \<and> I (pre @ ks') st'"
    for pre ks' st
  proof (induction ks' arbitrary: pre st)
    case Nil
    then show ?case by simp
  next
    case (Cons k ks')
    from assms(2) [OF Cons.prems(1)] Cons.prems(2)
    obtain s where s: "body k st = Inr s" "I (pre @ [k]) s" by auto
    from Cons.IH [OF s(2)] Cons.prems(2) s(1) show ?case by simp
  qed
  from this [of "[]" st ks] assms(1) show ?thesis by simp
qed

subsection \<open>\<open>_create_maps\<close> fills every cell\<close>

lemma cells3_set3:
  "cells3 k h w a f \<Longrightarrow>
   cells3 k h w (set3 a j y x v) (\<lambda>j' y' x'. if j' = j \<and> y' = y \<and> x' = x then v else f j' y' x')"
  unfolding cells3_def by (auto simp: is_array3_set3 nth_set3)

lemma cells3_cong:
  "cells3 k h w a f \<Longrightarrow> (\<And>j y x. j < k \<Longrightarrow> y < h \<Longrightarrow> x < w \<Longrightarrow> f j y x = f' j y x) \<Longrightarrow>
   cells3 k h w a f'"
  unfolding cells3_def by simp

lemma fill_row:
  "cells3 k h w a f \<Longrightarrow>
   cells3 k h w (fold (\<lambda>x a. set3 a j y x (g x)) xs a)
     (\<lambda>j' y' x'. if j' = j \<and> y' = y \<and> x' \<in> set xs then g x' else f j' y' x')"
proof (induction xs arbitrary: a f)
  case Nil
  then show ?case by simp
next
  case (Cons x xs)
  show ?case
    using Cons.IH [OF cells3_set3 [OF Cons.prems, of j y x "g x"]]
    by (auto elim!: cells3_cong)
qed

lemma fill_map:
  "cells3 k h w a f \<Longrightarrow>
   cells3 k h w (fold (\<lambda>y. fold (\<lambda>x a. set3 a j y x (g y x)) xs) ys a)
     (\<lambda>j' y' x'. if j' = j \<and> y' \<in> set ys \<and> x' \<in> set xs then g y' x' else f j' y' x')"
proof (induction ys arbitrary: a f)
  case Nil
  then show ?case by simp
next
  case (Cons y ys)
  show ?case
    using Cons.IH [OF fill_row [OF Cons.prems, of j y "g y" xs]]
    by (auto elim!: cells3_cong)
qed

lemma fill_stack:
  "cells3 k h w a f \<Longrightarrow>
   cells3 k h w (fold (\<lambda>j. fold (\<lambda>y. fold (\<lambda>x a. set3 a j y x (g j y x)) xs) ys) js a)
     (\<lambda>j' y' x'. if j' \<in> set js \<and> y' \<in> set ys \<and> x' \<in> set xs then g j' y' x' else f j' y' x')"
proof (induction js arbitrary: a f)
  case Nil
  then show ?case by simp
next
  case (Cons j js)
  show ?case
    using Cons.IH [OF fill_map [OF Cons.prems, of j "g j" xs ys]]
    by (auto elim!: cells3_cong)
qed

lemma create_maps_cells:
  assumes "0 \<le> H" "0 \<le> W"
  shows "\<exists>m. create_maps (H, W) c i = Inr m \<and>
           cells3 (length i) (nat H) (nat W) m (\<lambda>j y x. real y - (c * real x + i ! j))"
proof -
  have z: "cells3 (length i) (nat H) (nat W) (zeros3 (length i) (nat H) (nat W) :: real list list list) (\<lambda>_ _ _. 0)"
    by (simp add: cells3_def is_array3_zeros3) (simp add: zeros3_def zeros2_def)
  show ?thesis
    using assms fill_stack [OF z, of "\<lambda>j y x. real y - (c * real x + i ! j)" "range_py W" "range_py H" "[0..<length i]"]
    by (auto simp: create_maps_def range_py_def elim!: cells3_cong)
qed

lemma create_maps_error:
  "H < 0 \<or> W < 0 \<Longrightarrow> create_maps (H, W) c i = Inl ValueError"
  by (simp add: create_maps_def)

subsection \<open>\<open>argmin\<close> and the label of a pixel\<close>

lemma first_min_unique: "first_min a k \<Longrightarrow> first_min a k' \<Longrightarrow> k = k'"
  unfolding first_min_def by (metis linorder_neqE_nat not_less)

lemma argmin_from_first_min:
  assumes "length pre = idx" "mi < length (pre @ vs)" "(pre @ vs) ! mi = mv"
    and "\<forall>j<idx. mv \<le> (pre @ vs) ! j" "\<forall>j<mi. mv < (pre @ vs) ! j" "mi \<le> idx"
  shows "first_min (pre @ vs) (argmin_from vs idx mv mi)"
  using assms
proof (induction vs arbitrary: pre idx mv mi)
  case Nil
  then show ?case by (auto simp: first_min_def)
next
  case (Cons v vs)
  have app: "pre @ v # vs = (pre @ [v]) @ vs" by simp
  have nth_idx: "(pre @ v # vs) ! idx = v" using Cons.prems(1) by (simp add: nth_append)
  show ?case
  proof (cases "v < mv")
    case True
    have "first_min ((pre @ [v]) @ vs) (argmin_from vs (Suc idx) v idx)"
    proof (rule Cons.IH)
      show "length (pre @ [v]) = Suc idx" using Cons.prems(1) by simp
      show "idx < length ((pre @ [v]) @ vs)" using Cons.prems(1) by simp
      show "((pre @ [v]) @ vs) ! idx = v" using nth_idx by simp
      show "\<forall>j<Suc idx. v \<le> ((pre @ [v]) @ vs) ! j"
        using Cons.prems(4) True nth_idx by (auto simp: less_Suc_eq)
      show "\<forall>j<idx. v < ((pre @ [v]) @ vs) ! j"
        using Cons.prems(4) True by auto
      show "idx \<le> Suc idx" by simp
    qed
    with True show ?thesis by simp
  next
    case False
    have "first_min ((pre @ [v]) @ vs) (argmin_from vs (Suc idx) mv mi)"
    proof (rule Cons.IH)
      show "length (pre @ [v]) = Suc idx" using Cons.prems(1) by simp
      show "mi < length ((pre @ [v]) @ vs)" using Cons.prems(2) by simp
      show "((pre @ [v]) @ vs) ! mi = mv" using Cons.prems(3) by simp
      show "\<forall>j<Suc idx. mv \<le> ((pre @ [v]) @ vs) ! j"
        using Cons.prems(4) False nth_idx by (auto simp: less_Suc_eq)
      show "\<forall>j<mi. mv < ((pre @ [v]) @ vs) ! j"
        using Cons.prems(5) by simp
      show "mi \<le> Suc idx" using Cons.prems(6) by simp
    qed
    with False show ?thesis by simp
  qed
qed

lemma argmin_first_min: "a \<noteq> [] \<Longrightarrow> \<exists>k. argmin a = Inr k \<and> first_min a k"
  using argmin_from_first_min [of "[]" 0 0 a "a ! 0"]
  by (cases a) (auto simp: argmin_def)

lemma argmin_Inr_iff: "argmin a = Inr k \<longleftrightarrow> a \<noteq> [] \<and> first_min a k"
proof
  assume "argmin a = Inr k"
  then show "a \<noteq> [] \<and> first_min a k"
    using argmin_first_min [of a] by (cases a) (auto simp: argmin_def)
next
  assume "a \<noteq> [] \<and> first_min a k"
  then show "argmin a = Inr k"
    using argmin_first_min [of a] first_min_unique by auto
qed

lemma argmin_Nil: "argmin [] = Inl ValueError"
  by (simp add: argmin_def)

lemma column_Inr: "column ms y x = Inr col \<Longrightarrow> col = map (\<lambda>m. m ! y ! x) ms"
  by (induction ms arbitrary: col) (auto simp: get2_def split: sum.splits if_splits)

lemma column_total:
  "is_array3 k h w ms \<Longrightarrow> y < h \<Longrightarrow> x < w \<Longrightarrow> column ms y x = Inr (map (\<lambda>m. m ! y ! x) ms)"
proof (induction ms arbitrary: k)
  case Nil
  then show ?case by simp
next
  case (Cons m ms)
  from Cons.prems have "is_array2 h w m" "is_array3 (length ms) h w ms"
    by (auto simp: is_array3_def)
  with Cons.IH [of "length ms"] Cons.prems(2,3) show ?case
    by (simp add: get2_def is_array2_iff)
qed

lemma pixel_label_Inr:
  assumes "pixel_label lp lr y x = Inr v"
  shows "\<exists>k. first_min (map (\<lambda>m. \<bar>m ! y ! x\<bar>) lp) k \<and> v = sign_of (lr ! y ! x) * (int k + 1)"
proof -
  from assms obtain col k where c: "column lp y x = Inr col"
    and k: "argmin (map (\<lambda>d. sqrt (d ^ 2)) col) = Inr k"
    and v: "v = sign_of (lr ! y ! x) * (int k + 1)"
    by (auto simp: pixel_label_def get2_def sign_of_def Let_def split: sum.splits if_splits)
  from column_Inr [OF c] k have "first_min (map (\<lambda>m. \<bar>m ! y ! x\<bar>) lp) k"
    by (simp add: argmin_Inr_iff comp_def)
  with v show ?thesis by blast
qed

lemma pixel_label_total:
  assumes "is_array3 k h w lp" "is_array2 h w lr" "y < h" "x < w" "0 < k"
  shows "\<exists>v. pixel_label lp lr y x = Inr v"
proof -
  have "lp \<noteq> []" using assms(1,5) by (auto simp: is_array3_def)
  then obtain c where "argmin (map (\<lambda>d. sqrt (d ^ 2)) (map (\<lambda>m. m ! y ! x) lp)) = Inr c"
    using argmin_first_min [of "map (\<lambda>d. sqrt (d ^ 2)) (map (\<lambda>m. m ! y ! x) lp)"] by auto
  then show ?thesis
    using assms column_total [OF assms(1,3,4)]
    by (simp add: pixel_label_def get2_def is_array2_iff Let_def)
qed

subsection \<open>The loops of \<open>_find_parts\<close>\<close>

lemma find_parts_row:
  assumes "for_loop js (find_parts_pixel lp lr i) L0 = Inr L'"
    and "is_array2 h w L0" "i < h" "\<forall>j\<in>set js. j < w"
  shows "is_array2 h w L' \<and>
         (\<forall>j\<in>set js. \<exists>v. pixel_label lp lr i j = Inr v \<and> L' ! i ! j = word_of_int v) \<and>
         (\<forall>y<h. \<forall>x<w. \<not> (y = i \<and> x \<in> set js) \<longrightarrow> L' ! y ! x = L0 ! y ! x)"
  using assms
proof (induction js arbitrary: L0)
  case Nil
  then show ?case by simp
next
  case (Cons j js)
  from Cons.prems(1) obtain L1 where step: "find_parts_pixel lp lr i j L0 = Inr L1"
    and rest1: "for_loop js (find_parts_pixel lp lr i) L1 = Inr L'"
    by (auto split: sum.splits)
  from step obtain v where v: "pixel_label lp lr i j = Inr v"
    and L1_eq: "L1 = set2 L0 i j (word_of_int v)"
    by (auto simp: find_parts_pixel_def split: sum.splits)
  from rest1 L1_eq
  have rest: "for_loop js (find_parts_pixel lp lr i) (set2 L0 i j (word_of_int v)) = Inr L'"
    by simp
  let ?L1 = "set2 L0 i j (word_of_int v :: int8)"
  have L1: "is_array2 h w ?L1" using Cons.prems(2) by (rule is_array2_set2)
  have jw: "j < w" using Cons.prems(4) by simp
  from Cons.IH [OF rest L1 Cons.prems(3)] Cons.prems(4)
  have IH: "is_array2 h w L'"
    "\<forall>j\<in>set js. \<exists>v. pixel_label lp lr i j = Inr v \<and> L' ! i ! j = word_of_int v"
    "\<forall>y<h. \<forall>x<w. \<not> (y = i \<and> x \<in> set js) \<longrightarrow> L' ! y ! x = ?L1 ! y ! x"
    by auto
  have cell: "L' ! i ! j = word_of_int v" if "j \<notin> set js"
    using IH(3) that Cons.prems(3) jw nth_set2 [OF Cons.prems(2), of i j i j] by simp
  have "\<exists>v. pixel_label lp lr i j = Inr v \<and> L' ! i ! j = word_of_int v"
    using v cell IH(2) by (cases "j \<in> set js") auto
  moreover have "\<forall>y<h. \<forall>x<w. \<not> (y = i \<and> x \<in> set (j # js)) \<longrightarrow> L' ! y ! x = L0 ! y ! x"
    using IH(3) nth_set2 [OF Cons.prems(2)] by auto
  ultimately show ?case using IH(1,2) by simp
qed

lemma find_parts_rows:
  assumes "for_loop ys (\<lambda>i. for_loop js (find_parts_pixel lp lr i)) L0 = Inr L'"
    and "is_array2 h w L0" "\<forall>i\<in>set ys. i < h" "\<forall>j\<in>set js. j < w"
  shows "is_array2 h w L' \<and>
         (\<forall>i\<in>set ys. \<forall>j\<in>set js. \<exists>v. pixel_label lp lr i j = Inr v \<and> L' ! i ! j = word_of_int v) \<and>
         (\<forall>y<h. \<forall>x<w. \<not> (y \<in> set ys \<and> x \<in> set js) \<longrightarrow> L' ! y ! x = L0 ! y ! x)"
  using assms
proof (induction ys arbitrary: L0)
  case Nil
  then show ?case by simp
next
  case (Cons i ys)
  from Cons.prems(1) obtain L1 where row: "for_loop js (find_parts_pixel lp lr i) L0 = Inr L1"
    and rest: "for_loop ys (\<lambda>i. for_loop js (find_parts_pixel lp lr i)) L1 = Inr L'"
    by (auto split: sum.splits)
  have ih: "i < h" using Cons.prems(3) by simp
  from find_parts_row [OF row Cons.prems(2) ih Cons.prems(4)]
  have R: "is_array2 h w L1"
    "\<forall>j\<in>set js. \<exists>v. pixel_label lp lr i j = Inr v \<and> L1 ! i ! j = word_of_int v"
    "\<forall>y<h. \<forall>x<w. \<not> (y = i \<and> x \<in> set js) \<longrightarrow> L1 ! y ! x = L0 ! y ! x"
    by auto
  from Cons.IH [OF rest R(1)] Cons.prems(3,4)
  have IH: "is_array2 h w L'"
    "\<forall>i\<in>set ys. \<forall>j\<in>set js. \<exists>v. pixel_label lp lr i j = Inr v \<and> L' ! i ! j = word_of_int v"
    "\<forall>y<h. \<forall>x<w. \<not> (y \<in> set ys \<and> x \<in> set js) \<longrightarrow> L' ! y ! x = L1 ! y ! x"
    by auto
  have "\<exists>v. pixel_label lp lr i j = Inr v \<and> L' ! i ! j = word_of_int v" if "j \<in> set js" for j
  proof (cases "i \<in> set ys")
    case True
    with IH(2) that show ?thesis by blast
  next
    case False
    have "j < w" using that Cons.prems(4) by simp
    with False IH(3) ih have "L' ! i ! j = L1 ! i ! j" by simp
    with R(2) that show ?thesis by auto
  qed
  moreover have "\<forall>y<h. \<forall>x<w. \<not> (y \<in> set (i # ys) \<and> x \<in> set js) \<longrightarrow> L' ! y ! x = L0 ! y ! x"
    using IH(3) R(3) by auto
  ultimately show ?case using IH(1,2) by auto
qed

lemma find_parts_Inr:
  assumes "find_parts (H, W) lp lr = Inr L"
  shows "is_array2 (nat H) (nat W) L \<and>
         (\<forall>y<nat H. \<forall>x<nat W. \<exists>v. pixel_label lp lr y x = Inr v \<and> L ! y ! x = word_of_int v)"
proof -
  from assms have loop: "for_loop [0..<nat H] (\<lambda>i. for_loop [0..<nat W] (find_parts_pixel lp lr i))
      (zeros2 (nat H) (nat W)) = Inr L"
    by (simp add: find_parts_def range_py_def split: if_splits)
  from find_parts_rows [OF loop is_array2_zeros2] show ?thesis by simp
qed

lemma find_parts_row_total:
  assumes "\<forall>j\<in>set js. \<exists>v. pixel_label lp lr i j = Inr v"
  shows "\<exists>L'. for_loop js (find_parts_pixel lp lr i) L0 = Inr L'"
  using assms
proof (induction js arbitrary: L0)
  case Nil
  then show ?case by simp
next
  case (Cons j js)
  from Cons.prems obtain v where "pixel_label lp lr i j = Inr v" by auto
  then have "find_parts_pixel lp lr i j L0 = Inr (set2 L0 i j (word_of_int v))"
    by (simp add: find_parts_pixel_def)
  with Cons.IH [of "set2 L0 i j (word_of_int v)"] Cons.prems show ?case by simp
qed

lemma find_parts_rows_total:
  assumes "\<forall>i\<in>set ys. \<forall>j\<in>set js. \<exists>v. pixel_label lp lr i j = Inr v"
  shows "\<exists>L'. for_loop ys (\<lambda>i. for_loop js (find_parts_pixel lp lr i)) L0 = Inr L'"
  using assms
proof (induction ys arbitrary: L0)
  case Nil
  then show ?case by simp
next
  case (Cons i ys)
  from Cons.prems find_parts_row_total [of js lp lr i L0]
  obtain L1 where "for_loop js (find_parts_pixel lp lr i) L0 = Inr L1" by auto
  with Cons.IH [of L1] Cons.prems show ?case by auto
qed

subsection \<open>\<open>linspace\<close> and the orthogonal samples\<close>

lemma coef_orth_one: "tan (arctan 1 - pi / 2) = - 1"
proof -
  have "arctan 1 - pi / 2 = - (pi / 4)" by (simp add: arctan_one)
  then show ?thesis by (simp add: tan_45)
qed

lemma linspace_error: "num < 0 \<Longrightarrow> linspace a b num = Inl ValueError"
  by (simp add: linspace_def)

lemma linspace_Inr:
  assumes "0 \<le> num"
  shows "\<exists>xs. linspace a b num = Inr xs \<and> length xs = nat num \<and>
           (\<forall>k<nat num. xs ! k = a + real k * ((b - a) / (real_of_int num - 1)))"
proof (cases "nat num > 1")
  case True
  then have num: "real (nat num - 1) = real_of_int num - 1" "real_of_int num - 1 \<noteq> 0"
    by auto
  have last: "a + real (nat num - 1) * ((b - a) / (real_of_int num - 1)) = b"
    using num by simp
  show ?thesis
    using assms True num(1) last
    by (auto simp: linspace_def Let_def nth_update_any)
next
  case False
  then have "nat num = 0 \<or> nat num = 1" by auto
  then show ?thesis
    using assms by (auto simp: linspace_def Let_def)
qed

lemma find_orthogonal_points_Inr:
  assumes "0 \<le> steps"
  shows "\<exists>xs ys io. find_orthogonal_points x_low x_high coef intercept steps =
             Inr (xs, ys, tan (arctan coef - pi / 2), io) \<and>
           length xs = nat steps \<and> length ys = nat steps \<and> length io = nat steps \<and>
           (\<forall>k<nat steps.
              xs ! k = x_low + real k * ((x_high - x_low) / (real_of_int steps - 1)) \<and>
              ys ! k = coef * xs ! k + intercept \<and>
              io ! k = ys ! k - tan (arctan coef - pi / 2) * xs ! k)"
proof -
  from linspace_Inr [OF assms, of x_low x_high] obtain xs where
    xs: "linspace x_low x_high steps = Inr xs" "length xs = nat steps"
      "\<forall>k<nat steps. xs ! k = x_low + real k * ((x_high - x_low) / (real_of_int steps - 1))"
    by blast
  show ?thesis
    using xs by (simp add: find_orthogonal_points_def Let_def)
qed

lemma find_orthogonal_points_error:
  "steps < 0 \<Longrightarrow> find_orthogonal_points x_low x_high coef intercept steps = Inl ValueError"
  by (simp add: find_orthogonal_points_def linspace_def)

subsection \<open>Stores into an \<open>int8\<close> array\<close>

lemma sint_int8_wrap: "sint (word_of_int v :: int8) = (v + 128) mod 256 - 128"
  using int_word_sint [of v, where ?'a = 8] by simp

lemma sint_int8_small: "- 128 \<le> v \<Longrightarrow> v \<le> 127 \<Longrightarrow> sint (word_of_int v :: int8) = v"
  by (simp add: sint_int8_wrap)

lemma sint_int8_over: "128 \<le> v \<Longrightarrow> v \<le> 383 \<Longrightarrow> sint (word_of_int v :: int8) = v - 256"
proof -
  assume a: "128 \<le> v" "v \<le> 383"
  have "v + 128 = (v - 128) + 256" by simp
  then have "(v + 128) mod 256 = ((v - 128) + 256) mod 256" by (rule arg_cong)
  also have "\<dots> = (v - 128) mod 256" by (simp only: mod_add_self2)
  also have "\<dots> = v - 128" using a by simp
  finally show ?thesis by (simp add: sint_int8_wrap)
qed

lemma sint_int8_under: "- 384 \<le> v \<Longrightarrow> v \<le> - 129 \<Longrightarrow> sint (word_of_int v :: int8) = v + 256"
proof -
  assume a: "- 384 \<le> v" "v \<le> - 129"
  have "v + 384 = (v + 128) + 256" by simp
  then have "(v + 384) mod 256 = ((v + 128) + 256) mod 256" by (rule arg_cong)
  also have "\<dots> = (v + 128) mod 256" by (simp only: mod_add_self2)
  finally have "(v + 128) mod 256 = (v + 384) mod 256" by simp
  also have "\<dots> = v + 384" using a by simp
  finally show ?thesis by (simp add: sint_int8_wrap)
qed

lemma sint_int8_bounds: "- 128 \<le> sint (w :: int8) \<and> sint w \<le> 127"
  using sint_ge [of w] sint_lt [of w] by simp

lemma label_nonzero:
  assumes "s = 1 \<or> s = - 1" "k < 255"
  shows "sint (word_of_int (s * (int k + 1)) :: int8) \<noteq> 0"
proof -
  let ?v = "s * (int k + 1)"
  have "(- 128 \<le> ?v \<and> ?v \<le> 127) \<or> (128 \<le> ?v \<and> ?v \<le> 383) \<or> (- 384 \<le> ?v \<and> ?v \<le> - 129)"
    using assms by auto
  then consider "- 128 \<le> ?v \<and> ?v \<le> 127" | "128 \<le> ?v \<and> ?v \<le> 383" | "- 384 \<le> ?v \<and> ?v \<le> - 129"
    by blast
  then show ?thesis
  proof cases
    case 1
    then have "sint (word_of_int ?v :: int8) = ?v" by (intro sint_int8_small) auto
    then show ?thesis using assms(1) by auto
  next
    case 2
    then have "sint (word_of_int ?v :: int8) = ?v - 256" by (intro sint_int8_over) auto
    then show ?thesis using assms by auto
  next
    case 3
    then have "sint (word_of_int ?v :: int8) = ?v + 256" by (intro sint_int8_under) auto
    then show ?thesis using assms by auto
  qed
qed

subsection \<open>\<open>get_labels\<close>\<close>

lemma find_parts_label:
  assumes "find_parts (H, W) lp lr = Inr L" "y < nat H" "x < nat W"
  shows "\<exists>k. first_min (map (\<lambda>m. \<bar>m ! y ! x\<bar>) lp) k \<and>
             L ! y ! x = word_of_int (sign_of (lr ! y ! x) * (int k + 1))"
proof -
  from find_parts_Inr [OF assms(1)] assms(2,3) obtain v where
    v: "pixel_label lp lr y x = Inr v" "L ! y ! x = word_of_int v" by blast
  from pixel_label_Inr [OF v(1)] v(2) show ?thesis by auto
qed

lemma get_labels_Inr:
  assumes "get_labels x_low x_high coef intercept (H, W) steps = Inr L"
  shows "0 \<le> steps \<and> 0 \<le> H \<and> 0 \<le> W \<and> is_array2 (nat H) (nat W) L \<and>
         (\<forall>y<nat H. \<forall>x<nat W. \<exists>k.
            first_min (map (\<lambda>j. \<bar>orth_distance x_low x_high coef intercept steps j y x\<bar>) [0..<nat steps]) k \<and>
            L ! y ! x = word_of_int (sign_of (axis_distance coef intercept y x) * (int k + 1)))"
proof -
  let ?co = "tan (arctan coef - pi / 2)"
  have steps: "0 \<le> steps"
    using assms find_orthogonal_points_error [of steps x_low x_high coef intercept]
    by (cases "0 \<le> steps") (auto simp: get_labels_def)
  from find_orthogonal_points_Inr [OF steps, of x_low x_high coef intercept] obtain xs ys io where
    fo: "find_orthogonal_points x_low x_high coef intercept steps = Inr (xs, ys, ?co, io)"
      "length io = nat steps"
      "\<forall>k<nat steps.
              xs ! k = x_low + real k * ((x_high - x_low) / (real_of_int steps - 1)) \<and>
              ys ! k = coef * xs ! k + intercept \<and>
              io ! k = ys ! k - ?co * xs ! k"
    by blast
  have shape: "0 \<le> H \<and> 0 \<le> W"
    using assms fo(1) create_maps_error [of H W ?co io]
    by (cases "H < 0 \<or> W < 0") (auto simp: get_labels_def)
  then have H: "0 \<le> H" and W: "0 \<le> W" by simp_all
  from create_maps_cells [OF H W, of ?co io] obtain lp where
    lp: "create_maps (H, W) ?co io = Inr lp"
      "cells3 (length io) (nat H) (nat W) lp (\<lambda>j y x. real y - (?co * real x + io ! j))"
    by blast
  from create_maps_cells [OF H W, of coef "[intercept]"] obtain lrs where
    lrs: "create_maps (H, W) coef [intercept] = Inr lrs"
      "cells3 (length [intercept]) (nat H) (nat W) lrs (\<lambda>j y x. real y - (coef * real x + [intercept] ! j))"
    by blast
  from assms fo(1) lp(1) lrs(1) have fp: "find_parts (H, W) lp (lrs ! 0) = Inr L"
    by (simp add: get_labels_def)
  have len: "length lp = nat steps"
    using lp(2) fo(2) by (simp add: cells3_def is_array3_def)
  have cell: "\<exists>k. first_min (map (\<lambda>j. \<bar>orth_distance x_low x_high coef intercept steps j y x\<bar>) [0..<nat steps]) k \<and>
            L ! y ! x = word_of_int (sign_of (axis_distance coef intercept y x) * (int k + 1))"
    if yx: "y < nat H" "x < nat W" for y x
  proof -
    from find_parts_label [OF fp yx] obtain k where
      k: "first_min (map (\<lambda>m. \<bar>m ! y ! x\<bar>) lp) k"
        "L ! y ! x = word_of_int (sign_of (lrs ! 0 ! y ! x) * (int k + 1))" by blast
    have "map (\<lambda>m. \<bar>m ! y ! x\<bar>) lp =
        map (\<lambda>j. \<bar>orth_distance x_low x_high coef intercept steps j y x\<bar>) [0..<nat steps]"
      using lp(2) fo(2,3) yx len
      by (auto simp: list_eq_iff_nth_eq cells3_def orth_distance_def sample_x_def Let_def)
    moreover have "lrs ! 0 ! y ! x = axis_distance coef intercept y x"
      using lrs(2) yx by (simp add: cells3_def axis_distance_def)
    ultimately show ?thesis using k by auto
  qed
  have "is_array2 (nat H) (nat W) L"
    using find_parts_Inr [OF fp] by simp
  with steps shape cell show ?thesis by blast
qed

lemma find_parts_total:
  assumes "0 \<le> H" "0 \<le> W" "is_array3 k (nat H) (nat W) lp" "is_array2 (nat H) (nat W) lr"
    and "0 < k \<or> H = 0 \<or> W = 0"
  shows "\<exists>L. find_parts (H, W) lp lr = Inr L"
proof -
  have "\<forall>i\<in>set [0..<nat H]. \<forall>j\<in>set [0..<nat W]. \<exists>v. pixel_label lp lr i j = Inr v"
    using pixel_label_total [OF assms(3,4)] assms(5) by auto
  from find_parts_rows_total [OF this] show ?thesis
    using assms(1,2) by (simp add: find_parts_def range_py_def)
qed

lemma get_labels_total:
  assumes "0 \<le> H" "0 \<le> W" "0 \<le> steps" "1 \<le> steps \<or> H = 0 \<or> W = 0"
  shows "\<exists>L. get_labels x_low x_high coef intercept (H, W) steps = Inr L"
proof -
  let ?co = "tan (arctan coef - pi / 2)"
  from find_orthogonal_points_Inr [OF assms(3), of x_low x_high coef intercept] obtain xs ys io where
    fo: "find_orthogonal_points x_low x_high coef intercept steps = Inr (xs, ys, ?co, io)"
      "length io = nat steps"
    by blast
  from create_maps_cells [OF assms(1,2), of ?co io] obtain lp where
    lp: "create_maps (H, W) ?co io = Inr lp"
      "cells3 (length io) (nat H) (nat W) lp (\<lambda>j y x. real y - (?co * real x + io ! j))"
    by blast
  from create_maps_cells [OF assms(1,2), of coef "[intercept]"] obtain lrs where
    lrs: "create_maps (H, W) coef [intercept] = Inr lrs"
      "cells3 (length [intercept]) (nat H) (nat W) lrs (\<lambda>j y x. real y - (coef * real x + [intercept] ! j))"
    by blast
  have a3: "is_array3 (nat steps) (nat H) (nat W) lp"
    using lp(2) fo(2) by (simp add: cells3_def)
  have a2: "is_array2 (nat H) (nat W) (lrs ! 0)"
    using lrs(2) by (simp add: cells3_def is_array3_iff)
  have "0 < nat steps \<or> H = 0 \<or> W = 0" using assms(4) by auto
  from find_parts_total [OF assms(1,2) a3 a2 this] fo(1) lp(1) lrs(1)
  show ?thesis by (simp add: get_labels_def)
qed


lemma array_1_1: "is_array2 1 1 L \<Longrightarrow> L = [[L ! 0 ! 0]]"
  unfolding is_array2_iff
  by (cases L; cases "hd L") (auto simp: length_Suc_conv)

lemma first_min_zero:
  "k < length a \<Longrightarrow> a ! k = 0 \<Longrightarrow> \<forall>j<length a. 0 \<le> a ! j \<Longrightarrow> \<forall>j<k. 0 < a ! j \<Longrightarrow> first_min a k"
  by (simp add: first_min_def)


lemma get_labels_nearest_sample:
  assumes "2 \<le> n" "c < nat n"
  shows "get_labels 0 (real_of_int n - 1) 1 (- (2 * real c)) (1, 1) n = Inr [[word_of_int (int c + 1)]]"
proof -
  from get_labels_total [of 1 1 n 0 "real_of_int n - 1" 1 "- 2 * real c"] assms obtain L where
    L: "get_labels 0 (real_of_int n - 1) 1 (- (2 * real c)) (1, 1) n = Inr L" by auto
  from get_labels_Inr [OF L] obtain k where
    a: "is_array2 1 1 L"
    and k: "first_min (map (\<lambda>j. \<bar>orth_distance 0 (real_of_int n - 1) 1 (- (2 * real c)) n j 0 0\<bar>) [0..<nat n]) k"
    and l: "L ! 0 ! 0 = word_of_int (sign_of (axis_distance 1 (- (2 * real c)) 0 0) * (int k + 1))"
    by auto
  have n1: "real_of_int n - 1 \<noteq> 0" using assms(1) by simp
  have d: "orth_distance 0 (real_of_int n - 1) 1 (- (2 * real c)) n j 0 0 = 2 * (real c - real j)" for j
    using n1 by (simp add: orth_distance_def sample_x_def coef_orth_one Let_def)
  have "first_min (map (\<lambda>j. \<bar>orth_distance 0 (real_of_int n - 1) 1 (- (2 * real c)) n j 0 0\<bar>) [0..<nat n]) c"
    using assms(2) by (intro first_min_zero) (auto simp: d)
  with k have "k = c" by (rule first_min_unique)
  moreover have "sign_of (axis_distance 1 (- (2 * real c)) 0 0) = 1"
    by (simp add: sign_of_def axis_distance_def)
  ultimately have "L ! 0 ! 0 = word_of_int (int c + 1)" using l by simp
  with array_1_1 [OF a] L show ?thesis by simp
qed






lemma sign_of_cases: "sign_of v = 1 \<or> sign_of v = - 1"
  by (simp add: sign_of_def)

lemma label_exact:
  assumes "s = 1 \<or> s = - 1" "k < 127"
  shows "sint (word_of_int (s * (int k + 1)) :: int8) = s * (int k + 1)"
  using assms by (intro sint_int8_small) auto

lemma label_magnitude:
  assumes "s = 1 \<or> s = - 1" "k < K" "K \<le> 255"
  shows "sint (word_of_int (s * (int k + 1)) :: int8) \<noteq> 0 \<and>
         \<bar>sint (word_of_int (s * (int k + 1)) :: int8)\<bar> \<le> int K"
proof -
  have nz: "sint (word_of_int (s * (int k + 1)) :: int8) \<noteq> 0"
    using assms by (intro label_nonzero) auto
  show ?thesis
  proof (cases "k < 127")
    case True
    from label_exact [OF assms(1) True] assms(1,2) nz show ?thesis by auto
  next
    case False
    then have "128 \<le> int K" using assms(2) by simp
    with sint_int8_bounds [of "word_of_int (s * (int k + 1))"] nz show ?thesis by linarith
  qed
qed

lemma find_parts_label_sint:
  assumes "find_parts (H, W) lp lr = Inr L" "y < nat H" "x < nat W"
  shows "\<exists>k. first_min (map (\<lambda>m. \<bar>m ! y ! x\<bar>) lp) k \<and>
           sint (L ! y ! x) = (sign_of (lr ! y ! x) * (int k + 1) + 128) mod 256 - 128 \<and>
           (length lp \<le> 127 \<longrightarrow> sint (L ! y ! x) = sign_of (lr ! y ! x) * (int k + 1)) \<and>
           (length lp \<le> 255 \<longrightarrow> sint (L ! y ! x) \<noteq> 0 \<and> \<bar>sint (L ! y ! x)\<bar> \<le> int (length lp))"
proof -
  from find_parts_label [OF assms] obtain k where
    k: "first_min (map (\<lambda>m. \<bar>m ! y ! x\<bar>) lp) k"
    and l: "L ! y ! x = word_of_int (sign_of (lr ! y ! x) * (int k + 1))" by blast
  have kl: "k < length lp" using k by (simp add: first_min_def)
  have "sint (L ! y ! x) = (sign_of (lr ! y ! x) * (int k + 1) + 128) mod 256 - 128"
    unfolding l by (rule sint_int8_wrap)
  moreover have "sint (L ! y ! x) = sign_of (lr ! y ! x) * (int k + 1)" if "length lp \<le> 127"
    unfolding l using kl that by (intro label_exact sign_of_cases) simp
  moreover have "sint (L ! y ! x) \<noteq> 0 \<and> \<bar>sint (L ! y ! x)\<bar> \<le> int (length lp)" if "length lp \<le> 255"
    unfolding l using kl that by (intro label_magnitude sign_of_cases)
  ultimately show ?thesis using k by blast
qed

lemma get_labels_wrap_128:
  assumes "128 \<le> steps"
  shows "get_labels 0 (real_of_int steps - 1) 1 (- 254) (1, 1) steps = Inr [[- 128]]"
  using get_labels_nearest_sample [of steps 127] assms by simp

lemma get_labels_wrap_256:
  assumes "256 \<le> steps"
  shows "get_labels 0 (real_of_int steps - 1) 1 (- 510) (1, 1) steps = Inr [[0]]"
  using get_labels_nearest_sample [of steps 255] assms by simp

lemma pixel_label_128:
  "pixel_label (map (\<lambda>k. [[254 - 2 * real k]]) [0..<128]) [[254]] 0 0 = Inr 128"
proof -
  let ?lp = "map (\<lambda>k. [[254 - 2 * real k]]) [0..<128]"
  have a3: "is_array3 128 1 1 ?lp" by (simp add: is_array3_def is_array2_def)
  have a2: "is_array2 1 1 [[254 :: real]]" by (simp add: is_array2_def)
  from pixel_label_total [OF a3 a2, of 0 0] obtain v where v: "pixel_label ?lp [[254]] 0 0 = Inr v"
    by auto
  from pixel_label_Inr [OF v] obtain k where
    k: "first_min (map (\<lambda>m. \<bar>m ! 0 ! 0\<bar>) ?lp) k" and ve: "v = sign_of ([[254]] ! 0 ! 0) * (int k + 1)"
    by blast
  have "first_min (map (\<lambda>m. \<bar>m ! 0 ! 0\<bar>) ?lp) 127"
    by (intro first_min_zero) (auto simp: nth_append)
  with k have "k = 127" by (rule first_min_unique)
  with ve v show ?thesis by (simp add: sign_of_def)
qed

lemma find_parts_128:
  "find_parts (1, 1) (map (\<lambda>k. [[254 - 2 * real k]]) [0..<128]) [[254]] = Inr [[- 128]]"
proof -
  let ?lp = "map (\<lambda>k. [[254 - 2 * real k]]) [0..<128]"
  have a3: "is_array3 128 (nat 1) (nat 1) ?lp" by (simp add: is_array3_def is_array2_def)
  have a2: "is_array2 (nat 1) (nat 1) [[254 :: real]]" by (simp add: is_array2_def)
  from find_parts_total [OF _ _ a3 a2] obtain L where L: "find_parts (1, 1) ?lp [[254]] = Inr L"
    by auto
  from find_parts_Inr [OF L] pixel_label_128 have "is_array2 1 1 L" "L ! 0 ! 0 = word_of_int 128"
    by auto
  with array_1_1 [of L] L show ?thesis by simp
qed

lemma get_labels_diagonal:
  assumes "2 \<le> n" "c < nat n"
  shows "\<exists>L. get_labels 0 (real_of_int n - 1) 1 0 (n, n) n = Inr L \<and>
             L ! c ! c = word_of_int (int c + 1)"
proof -
  from get_labels_total [of n n n 0 "real_of_int n - 1" 1 0] assms obtain L where
    L: "get_labels 0 (real_of_int n - 1) 1 0 (n, n) n = Inr L" by auto
  from get_labels_Inr [OF L] assms(2) obtain k where
    k: "first_min (map (\<lambda>j. \<bar>orth_distance 0 (real_of_int n - 1) 1 0 n j c c\<bar>) [0..<nat n]) k"
    and l: "L ! c ! c = word_of_int (sign_of (axis_distance 1 0 c c) * (int k + 1))"
    by blast
  have n1: "real_of_int n - 1 \<noteq> 0" using assms(1) by simp
  have d: "orth_distance 0 (real_of_int n - 1) 1 0 n j c c = 2 * (real c - real j)" for j
    using n1 by (simp add: orth_distance_def sample_x_def coef_orth_one Let_def)
  have "first_min (map (\<lambda>j. \<bar>orth_distance 0 (real_of_int n - 1) 1 0 n j c c\<bar>) [0..<nat n]) c"
    using assms(2) by (intro first_min_zero) (auto simp: d)
  with k have "k = c" by (rule first_min_unique)
  moreover have "sign_of (axis_distance 1 0 c c) = 1"
    by (simp add: sign_of_def axis_distance_def)
  ultimately have "L ! c ! c = word_of_int (int c + 1)" using l by simp
  with L show ?thesis by blast
qed

lemma get_labels_diagonal_256:
  "\<exists>L. get_labels 0 255 1 0 (256, 256) 256 = Inr L \<and> sint (L ! 255 ! 255) = 0"
proof -
  from get_labels_diagonal [of 256 255] obtain L where
    "get_labels 0 255 1 0 (256, 256) 256 = Inr L" "L ! 255 ! 255 = word_of_int 256" by auto
  moreover have "sint (word_of_int 256 :: int8) = 0" by simp
  ultimately show ?thesis by auto
qed

lemma get_labels_diagonal_128:
  "\<exists>L. get_labels 0 127 1 0 (128, 128) 128 = Inr L \<and> sint (L ! 127 ! 127) = - 128"
proof -
  from get_labels_diagonal [of 128 127] obtain L where
    "get_labels 0 127 1 0 (128, 128) 128 = Inr L" "L ! 127 ! 127 = word_of_int 128" by auto
  moreover have "sint (word_of_int 128 :: int8) = - 128" by simp
  ultimately show ?thesis by auto
qed

subsection \<open>The bins of \<open>compute_pvg\<close>\<close>

lemma all_steps_eq:
  assumes "0 \<le> steps"
  shows "all_steps steps = rev [1..steps] @ map (\<lambda>v. - (v - steps)) [steps + 1..steps * 2]"
proof -
  have split: "[1..steps * 2] = [1..steps] @ [steps + 1..steps * 2]"
    using assms upto_split2 [of 1 steps "steps * 2"]
    by (cases "steps = 0") auto
  have len: "length [1..steps] = nat steps" using assms by simp
  have t: "take (nat steps) [1..steps * 2] = [1..steps]"
    and d: "drop (nat steps) [1..steps * 2] = [steps + 1..steps * 2]"
    unfolding split using len by simp_all
  show ?thesis
    unfolding all_steps_def Let_def t d using len by simp
qed

lemma length_all_steps: "0 \<le> steps \<Longrightarrow> length (all_steps steps) = nat (steps * 2)"
  by (simp add: all_steps_eq)

lemma all_steps_nth:
  assumes "0 \<le> steps" "b < nat (steps * 2)"
  shows "all_steps steps ! b = label_of_bin steps b"
proof (cases "int b < steps")
  case True
  then have "b < length (rev [1..steps])" by simp
  then have "all_steps steps ! b = rev [1..steps] ! b"
    using assms(1) by (simp add: all_steps_eq nth_append)
  also have "\<dots> = [1..steps] ! (nat steps - Suc b)"
    using True by (simp add: rev_nth)
  also have "\<dots> = 1 + int (nat steps - Suc b)"
    using True by (intro nth_upto) auto
  also have "\<dots> = steps - int b" using True by auto
  finally show ?thesis using True by (simp add: label_of_bin_def)
next
  case False
  then have ge: "nat steps \<le> b" using assms(1) by auto
  have "all_steps steps ! b = map (\<lambda>v. - (v - steps)) [steps + 1..steps * 2] ! (b - nat steps)"
    using assms(1) ge by (simp add: all_steps_eq nth_append)
  also have "\<dots> = - ([steps + 1..steps * 2] ! (b - nat steps) - steps)"
    using assms ge by (intro nth_map) auto
  also have "[steps + 1..steps * 2] ! (b - nat steps) = steps + 1 + int (b - nat steps)"
    using assms ge by (intro nth_upto) auto
  finally show ?thesis using False assms(1) ge by (simp add: label_of_bin_def)
qed

lemma set_all_steps:
  assumes "0 \<le> steps"
  shows "v \<in> set (all_steps steps) \<longleftrightarrow> v \<noteq> 0 \<and> \<bar>v\<bar> \<le> steps"
proof -
  have neg: "v \<in> (\<lambda>u. - (u - steps)) ` {steps + 1..steps * 2} \<longleftrightarrow> - steps \<le> v \<and> v \<le> - 1"
  proof
    assume "v \<in> (\<lambda>u. - (u - steps)) ` {steps + 1..steps * 2}"
    then obtain u where "v = - (u - steps)" "steps + 1 \<le> u" "u \<le> steps * 2"
      by (auto simp only: image_iff atLeastAtMost_iff)
    then show "- steps \<le> v \<and> v \<le> - 1" by linarith
  next
    assume v: "- steps \<le> v \<and> v \<le> - 1"
    have "v = - ((steps - v) - steps)" by simp
    moreover have "steps - v \<in> {steps + 1..steps * 2}"
      using v by (simp only: atLeastAtMost_iff) linarith
    ultimately show "v \<in> (\<lambda>u. - (u - steps)) ` {steps + 1..steps * 2}"
      by (rule image_eqI)
  qed
  have "v \<in> set (all_steps steps) \<longleftrightarrow>
      (1 \<le> v \<and> v \<le> steps) \<or> v \<in> (\<lambda>u. - (u - steps)) ` {steps + 1..steps * 2}"
    using assms by (simp add: all_steps_eq)
  also have "\<dots> \<longleftrightarrow> (1 \<le> v \<and> v \<le> steps) \<or> (- steps \<le> v \<and> v \<le> - 1)"
    by (simp only: neg)
  also have "\<dots> \<longleftrightarrow> v \<noteq> 0 \<and> \<bar>v\<bar> \<le> steps"
    by linarith
  finally show ?thesis .
qed

lemma distinct_all_steps:
  assumes "0 \<le> steps"
  shows "distinct (all_steps steps)"
proof -
  have "inj_on (\<lambda>v. - (v - steps)) (set [steps + 1..steps * 2])"
    by (rule inj_onI) simp
  then have "distinct (map (\<lambda>v. - (v - steps)) [steps + 1..steps * 2])"
    by (simp add: distinct_map)
  moreover have "set (rev [1..steps]) \<inter> set (map (\<lambda>v. - (v - steps)) [steps + 1..steps * 2]) = {}"
  proof (rule ccontr)
    assume "set (rev [1..steps]) \<inter> set (map (\<lambda>v. - (v - steps)) [steps + 1..steps * 2]) \<noteq> {}"
    then obtain v u where "1 \<le> v" "v = - (u - steps)" "steps + 1 \<le> u"
      by (auto simp only: set_rev set_map set_upto image_iff atLeastAtMost_iff Int_iff ex_in_conv [symmetric])
    then show False by linarith
  qed
  ultimately show ?thesis using assms by (simp only: all_steps_eq distinct_append distinct_rev distinct_upto)
qed

subsection \<open>The loops of \<open>compute_pvg\<close>\<close>

lemma shape2_array:
  "is_array2 h w a \<Longrightarrow> shape2 a = (h, if h = 0 then 0 else w)"
  unfolding is_array2_iff shape2_def
  by (cases a) (auto simp: nth_Cons')

lemma is_array2_eq2: "is_array2 h w lab \<Longrightarrow> is_array2 h w (eq2 lab j)"
  by (simp add: is_array2_def eq2_def)

lemma nth_eq2:
  "is_array2 h w lab \<Longrightarrow> y < h \<Longrightarrow> x < w \<Longrightarrow> eq2 lab j ! y ! x \<longleftrightarrow> lab ! y ! x = j"
  by (simp add: is_array2_iff eq2_def)

lemma and2_same_shape:
  assumes "is_array2 h w f" "is_array2 h w m"
  shows "and2 f m = Inr (map (\<lambda>y. map (\<lambda>x. f ! y ! x \<and> m ! y ! x) [0..<w]) [0..<h])"
proof (cases "h = 0")
  case True
  with assms show ?thesis
    by (simp add: and2_def shape2_array [OF assms(1)] shape2_array [OF assms(2)] broadcast_dim_def)
next
  case False
  have "bget f y x = f ! y ! x" "bget m y x = m ! y ! x" if "y < h" "x < w" for y x
    using that False
    by (auto simp: bget_def shape2_array [OF assms(1)] shape2_array [OF assms(2)])
  then show ?thesis
    using False
    by (simp add: and2_def shape2_array [OF assms(1)] shape2_array [OF assms(2)] broadcast_dim_def)
qed

lemma length_filter_product:
  "length (filter (\<lambda>(y, x). P y x) (List.product ys xs)) =
   sum_list (map (\<lambda>y. length (filter (P y) xs)) ys)"
  by (induction ys) (simp_all add: filter_map comp_def)

lemma sum2_table:
  "sum2 (map (\<lambda>y. map (Q y) xs) ys) = length (filter (\<lambda>(y, x). Q y x) (List.product ys xs))"
  by (simp add: sum2_def length_filter_product filter_map comp_def)

lemma sum2_and2_eq2:
  assumes "is_array2 h w f" "is_array2 h w lab"
  shows "\<exists>m. and2 f (eq2 lab j) = Inr m \<and> sum2 m = count_pixels h w f lab j"
proof -
  let ?m = "map (\<lambda>y. map (\<lambda>x. f ! y ! x \<and> eq2 lab j ! y ! x) [0..<w]) [0..<h]"
  have m: "and2 f (eq2 lab j) = Inr ?m"
    by (rule and2_same_shape [OF assms(1) is_array2_eq2 [OF assms(2)]])
  have "sum2 ?m = length (filter (\<lambda>(y, x). f ! y ! x \<and> eq2 lab j ! y ! x) (pixels h w))"
    by (simp add: sum2_table pixels_def)
  also have "\<dots> = count_pixels h w f lab j"
    unfolding count_pixels_def
    by (rule arg_cong [where f = length], rule filter_cong)
      (auto simp: pixels_def nth_eq2 [OF assms(2)])
  finally show ?thesis using m by blast
qed

lemma masks_loop:
  assumes "frame < length labels" "n + length js \<le> length l0"
  shows "\<exists>l. for_loop (enumerate n js)
                (\<lambda>(i, j) l. if frame < length labels then Inr (l[i := eq2 (labels ! frame) j])
                             else Inl IndexError) l0 = Inr l \<and>
             length l = length l0 \<and>
             (\<forall>i<length l0. l ! i = (if n \<le> i \<and> i < n + length js
                                      then eq2 (labels ! frame) (js ! (i - n)) else l0 ! i))"
  using assms(2)
proof (induction js arbitrary: n l0)
  case Nil
  then show ?case by auto
next
  case (Cons j js)
  let ?l1 = "l0[n := eq2 (labels ! frame) j]"
  have "Suc n + length js \<le> length ?l1" using Cons.prems by simp
  from Cons.IH [OF this] obtain l where
    l: "for_loop (enumerate (Suc n) js)
                (\<lambda>(i, j) l. if frame < length labels then Inr (l[i := eq2 (labels ! frame) j])
                             else Inl IndexError) ?l1 = Inr l"
      "length l = length ?l1"
      "\<forall>i<length ?l1. l ! i = (if Suc n \<le> i \<and> i < Suc n + length js
                                      then eq2 (labels ! frame) (js ! (i - Suc n)) else ?l1 ! i)"
    by blast
  have "l ! i = (if n \<le> i \<and> i < n + length (j # js)
                 then eq2 (labels ! frame) ((j # js) ! (i - n)) else l0 ! i)"
    if "i < length l0" for i
  proof (cases "i = n")
    case True
    with l(3) that show ?thesis by simp
  next
    case False
    with l(3) that show ?thesis by (auto simp: nth_Cons' Suc_diff_Suc)
  qed
  with l(1,2) assms(1) show ?case by simp
qed

lemma counts_loop:
  assumes "\<forall>i\<in>set bs. i < nb \<and> (\<exists>m. and2 f (l ! i) = Inr m \<and> sum2 m = c i)"
    and "is_array2 T nb pvg0" "frame < T"
  shows "\<exists>pvg. for_loop bs
                  (\<lambda>i pvg. case and2 f (l ! i) of
                              Inl e \<Rightarrow> Inl e
                            | Inr m \<Rightarrow> Inr (set2 pvg frame i (sum2 m))) pvg0 = Inr pvg \<and>
               is_array2 T nb pvg \<and>
               (\<forall>t<T. \<forall>b<nb. pvg ! t ! b = (if t = frame \<and> b \<in> set bs then c b else pvg0 ! t ! b))"
  using assms(1,2)
proof (induction bs arbitrary: pvg0)
  case Nil
  then show ?case by simp
next
  case (Cons i bs)
  from Cons.prems(1) obtain m where m: "and2 f (l ! i) = Inr m" "sum2 m = c i" "i < nb"
    by auto
  let ?p1 = "set2 pvg0 frame i (c i)"
  have p1: "is_array2 T nb ?p1" using Cons.prems(2) by (rule is_array2_set2)
  from Cons.IH [OF _ p1] Cons.prems(1) obtain pvg where
    pvg: "for_loop bs
                  (\<lambda>i pvg. case and2 f (l ! i) of
                              Inl e \<Rightarrow> Inl e
                            | Inr m \<Rightarrow> Inr (set2 pvg frame i (sum2 m))) ?p1 = Inr pvg"
      "is_array2 T nb pvg"
      "\<forall>t<T. \<forall>b<nb. pvg ! t ! b = (if t = frame \<and> b \<in> set bs then c b else ?p1 ! t ! b)"
    by auto
  have "pvg ! t ! b = (if t = frame \<and> b \<in> set (i # bs) then c b else pvg0 ! t ! b)"
    if "t < T" "b < nb" for t b
    using pvg(3) that nth_set2 [OF Cons.prems(2) that, of frame i "c i"] by auto
  with pvg(1,2) m show ?case by simp
qed

lemma pvg_frame_step:
  assumes "0 \<le> steps" "frame < T" "frame < length labels"
    and "is_array2 h w (s ! frame)" "is_array2 h w (labels ! frame)"
    and "is_array2 T (nat (steps * 2)) pvg0" "length l0 = nat (steps * 2)"
  shows "\<exists>pvg l. pvg_frame s labels steps frame (pvg0, l0) = Inr (pvg, l) \<and>
           is_array2 T (nat (steps * 2)) pvg \<and> length l = nat (steps * 2) \<and>
           (\<forall>t<T. \<forall>b<nat (steps * 2). pvg ! t ! b =
              (if t = frame then count_pixels h w (s ! frame) (labels ! frame) (label_of_bin steps b)
               else pvg0 ! t ! b))"
proof -
  let ?nb = "nat (steps * 2)"
  have len: "0 + length (all_steps steps) \<le> length l0"
    using assms(1,7) by (simp add: length_all_steps)
  from masks_loop [OF assms(3) len] obtain l where
    l: "for_loop (enumerate 0 (all_steps steps))
                (\<lambda>(i, j) l. if frame < length labels then Inr (l[i := eq2 (labels ! frame) j])
                             else Inl IndexError) l0 = Inr l"
      "length l = length l0"
      "\<forall>i<length l0. l ! i = (if 0 \<le> i \<and> i < 0 + length (all_steps steps)
                                      then eq2 (labels ! frame) (all_steps steps ! (i - 0)) else l0 ! i)"
    by blast
  have li: "l ! i = eq2 (labels ! frame) (label_of_bin steps i)" if "i < ?nb" for i
    using l(3) that assms(1,7) by (simp add: length_all_steps all_steps_nth)
  have "\<forall>i\<in>set (range_py (steps * 2)). i < ?nb \<and>
          (\<exists>m. and2 (s ! frame) (l ! i) = Inr m \<and>
               sum2 m = count_pixels h w (s ! frame) (labels ! frame) (label_of_bin steps i))"
    using sum2_and2_eq2 [OF assms(4,5)] by (simp add: range_py_def li)
  from counts_loop [OF this assms(6,2)] obtain pvg where
    pvg: "for_loop (range_py (steps * 2))
                  (\<lambda>i pvg. case and2 (s ! frame) (l ! i) of
                              Inl e \<Rightarrow> Inl e
                            | Inr m \<Rightarrow> Inr (set2 pvg frame i (sum2 m))) pvg0 = Inr pvg"
      "is_array2 T ?nb pvg"
      "\<forall>t<T. \<forall>b<?nb. pvg ! t ! b =
          (if t = frame \<and> b \<in> set (range_py (steps * 2))
           then count_pixels h w (s ! frame) (labels ! frame) (label_of_bin steps b)
           else pvg0 ! t ! b)"
    by blast
  have "pvg_frame s labels steps frame (pvg0, l0) = Inr (pvg, l)"
    using l(1) pvg(1) by (simp add: pvg_frame_def)
  moreover have "\<forall>t<T. \<forall>b<?nb. pvg ! t ! b =
              (if t = frame then count_pixels h w (s ! frame) (labels ! frame) (label_of_bin steps b)
               else pvg0 ! t ! b)"
    using pvg(3) by (simp add: range_py_def)
  ultimately show ?thesis using pvg(2) l(2) assms(7) by simp
qed

lemma compute_pvg_cells:
  assumes "0 \<le> steps" "is_array3 T h w s" "is_array3 T' h w labels" "T \<le> T'"
  shows "\<exists>pvg. compute_pvg s labels steps = Inr pvg \<and> is_array2 T (nat (steps * 2)) pvg \<and>
           (\<forall>t<T. \<forall>b<nat (steps * 2).
              pvg ! t ! b = count_pixels h w (s ! t) (labels ! t) (label_of_bin steps b))"
proof -
  let ?nb = "nat (steps * 2)"
  let ?I = "\<lambda>ds st. is_array2 T ?nb (fst st) \<and> length (snd st) = ?nb \<and>
              (\<forall>t\<in>set ds. t < T) \<and>
              (\<forall>t\<in>set ds. \<forall>b<?nb.
                 fst st ! t ! b = count_pixels h w (s ! t) (labels ! t) (label_of_bin steps b))"
  let ?pvg0 = "zeros2 (length s) ?nb :: nat list list"
  let ?l0 = "replicate ?nb (case labels of [] \<Rightarrow> [] | m # _ \<Rightarrow> map (map (\<lambda>_. False)) m)"
  have T: "length s = T" "length labels = T'"
    using assms(2,3) by (simp_all add: is_array3_def)
  have init: "?I [] (?pvg0, ?l0)"
    using T by (simp add: is_array2_zeros2)
  have step: "\<exists>st'. pvg_frame s labels steps k st = Inr st' \<and> ?I (ds @ [k]) st'"
    if "?I ds st" "k \<in> set [0..<length s]" for k ds st
  proof -
    have k: "k < T" "k < length labels" using that(2) T assms(4) by simp_all
    have sk: "is_array2 h w (s ! k)" "is_array2 h w (labels ! k)"
      using assms(2,3) k T by (simp_all add: is_array3_iff)
    from that(1) have st: "is_array2 T ?nb (fst st)" "length (snd st) = ?nb" by simp_all
    from pvg_frame_step [OF assms(1) k sk st] obtain pvg l where
      r: "pvg_frame s labels steps k (fst st, snd st) = Inr (pvg, l)"
        "is_array2 T ?nb pvg" "length l = ?nb"
        "\<forall>t<T. \<forall>b<?nb. pvg ! t ! b =
              (if t = k then count_pixels h w (s ! k) (labels ! k) (label_of_bin steps b)
               else fst st ! t ! b)"
      by blast
    have "\<forall>t\<in>set (ds @ [k]). \<forall>b<?nb.
            pvg ! t ! b = count_pixels h w (s ! t) (labels ! t) (label_of_bin steps b)"
    proof (intro ballI allI impI)
      fix t b
      assume t: "t \<in> set (ds @ [k])" and b: "b < ?nb"
      show "pvg ! t ! b = count_pixels h w (s ! t) (labels ! t) (label_of_bin steps b)"
      proof (cases "t = k")
        case True
        with r(4) k(1) b show ?thesis by simp
      next
        case False
        with t have td: "t \<in> set ds" by simp
        have "t < T" using td that(1) by simp
        with r(4) False b that(1) td show ?thesis by simp
      qed
    qed
    with r(1,2,3) k(1) that(1) show ?thesis by simp
  qed
  from for_loop_total [of ?I "(?pvg0, ?l0)" "[0..<length s]" "pvg_frame s labels steps", OF init step]
  obtain st' where
    st': "for_loop [0..<length s] (pvg_frame s labels steps) (?pvg0, ?l0) = Inr st'"
      "?I [0..<length s] st'"
    by blast
  have "compute_pvg s labels steps = Inr (fst st')"
    using assms(1) st'(1) by (simp add: compute_pvg_def)
  with st'(2) T show ?thesis by simp
qed

subsection \<open>Row sums\<close>

lemma pixels_in_range: "(y, x) \<in> set (pixels h w) \<longleftrightarrow> y < h \<and> x < w"
  by (auto simp: pixels_def)

lemma length_filter_disjoint:
  "(\<And>p. p \<in> set ps \<Longrightarrow> \<not> (P p \<and> Q p)) \<Longrightarrow>
   length (filter P ps) + length (filter Q ps) = length (filter (\<lambda>p. P p \<or> Q p) ps)"
  by (induction ps) auto

lemma sum_counts_distinct:
  "distinct js \<Longrightarrow>
   sum_list (map (\<lambda>j. length (filter (\<lambda>p. A p \<and> lab p = j) ps)) js) =
   length (filter (\<lambda>p. A p \<and> lab p \<in> set js) ps)"
proof (induction js)
  case Nil
  then show ?case by simp
next
  case (Cons j js)
  have "length (filter (\<lambda>p. A p \<and> lab p = j) ps) + length (filter (\<lambda>p. A p \<and> lab p \<in> set js) ps) =
        length (filter (\<lambda>p. (A p \<and> lab p = j) \<or> (A p \<and> lab p \<in> set js)) ps)"
    using Cons.prems by (intro length_filter_disjoint) auto
  also have "\<dots> = length (filter (\<lambda>p. A p \<and> lab p \<in> set (j # js)) ps)"
    by (rule arg_cong [where f = length], rule filter_cong) auto
  finally show ?case using Cons by simp
qed

lemma count_pixels_all_steps:
  assumes "0 \<le> steps"
  shows "sum_list (map (count_pixels h w f lab) (all_steps steps)) =
         length (filter (\<lambda>(y, x). f ! y ! x \<and> lab ! y ! x \<noteq> 0 \<and> \<bar>lab ! y ! x\<bar> \<le> steps) (pixels h w))"
proof -
  have "sum_list (map (count_pixels h w f lab) (all_steps steps)) =
        sum_list (map (\<lambda>j. length (filter (\<lambda>p. f ! fst p ! snd p \<and> lab ! fst p ! snd p = j) (pixels h w)))
          (all_steps steps))"
    by (simp add: count_pixels_def [abs_def] case_prod_unfold)
  also have "\<dots> = length (filter (\<lambda>p. f ! fst p ! snd p \<and> lab ! fst p ! snd p \<in> set (all_steps steps))
      (pixels h w))"
    by (rule sum_counts_distinct [OF distinct_all_steps [OF assms]])
  also have "\<dots> = length (filter (\<lambda>(y, x). f ! y ! x \<and> lab ! y ! x \<noteq> 0 \<and> \<bar>lab ! y ! x\<bar> \<le> steps)
      (pixels h w))"
    by (simp add: set_all_steps [OF assms] case_prod_unfold)
  finally show ?thesis .
qed

lemma pvg_row_sum:
  assumes "0 \<le> steps" "is_array3 T h w s" "is_array3 T' h w labels" "T \<le> T'" "t < T"
  shows "\<exists>pvg. compute_pvg s labels steps = Inr pvg \<and>
           sum_list (pvg ! t) =
             length (filter (\<lambda>(y, x). s ! t ! y ! x \<and> labels ! t ! y ! x \<noteq> 0 \<and>
                        \<bar>labels ! t ! y ! x\<bar> \<le> steps) (pixels h w))"
proof -
  let ?nb = "nat (steps * 2)"
  from compute_pvg_cells [OF assms(1-4)] obtain pvg where
    pvg: "compute_pvg s labels steps = Inr pvg" "is_array2 T ?nb pvg"
      "\<forall>t<T. \<forall>b<?nb. pvg ! t ! b = count_pixels h w (s ! t) (labels ! t) (label_of_bin steps b)"
    by blast
  have len: "length (pvg ! t) = ?nb" using pvg(2) assms(5) by (simp add: is_array2_iff)
  have "pvg ! t = map (count_pixels h w (s ! t) (labels ! t)) (all_steps steps)"
    using pvg(3) assms(1,5) len
    by (simp add: list_eq_iff_nth_eq length_all_steps all_steps_nth)
  then show ?thesis
    using pvg(1) count_pixels_all_steps [OF assms(1)] by simp
qed

lemma pvg_row_sum_popcount:
  assumes "0 \<le> steps" "is_array3 T h w s" "is_array3 T' h w labels" "T \<le> T'" "t < T"
    and "\<forall>y<h. \<forall>x<w. labels ! t ! y ! x \<noteq> 0 \<and> \<bar>labels ! t ! y ! x\<bar> \<le> steps"
  shows "\<exists>pvg. compute_pvg s labels steps = Inr pvg \<and> sum_list (pvg ! t) = popcount h w (s ! t)"
proof -
  have "length (filter (\<lambda>(y, x). s ! t ! y ! x \<and> labels ! t ! y ! x \<noteq> 0 \<and>
                        \<bar>labels ! t ! y ! x\<bar> \<le> steps) (pixels h w)) = popcount h w (s ! t)"
    unfolding popcount_def
    by (rule arg_cong [where f = length], rule filter_cong) (use assms(6) in \<open>auto simp: pixels_in_range\<close>)
  with pvg_row_sum [OF assms(1-5)] show ?thesis by simp
qed

lemma count_pixels_empty:
  assumes "\<forall>y<h. \<forall>x<w. \<not> f ! y ! x"
  shows "count_pixels h w f lab j = 0"
  using assms by (auto simp: count_pixels_def pixels_in_range filter_empty_conv)

lemma singleton_list: "length xs = 1 \<Longrightarrow> xs = [xs ! 0]"
  by (cases xs) auto

lemma compute_pvg_label_zero:
  assumes "0 \<le> steps"
  shows "compute_pvg [[[True]]] [[[0]]] steps = Inr [replicate (nat (steps * 2)) 0]"
proof -
  let ?nb = "nat (steps * 2)"
  have a: "is_array3 1 1 1 [[[True]]]" "is_array3 1 1 1 [[[0 :: int]]]"
    by (simp_all add: is_array3_def is_array2_def)
  from compute_pvg_cells [OF assms a] obtain pvg where
    pvg: "compute_pvg [[[True]]] [[[0]]] steps = Inr pvg" "is_array2 1 ?nb pvg"
      "\<forall>t<1. \<forall>b<?nb. pvg ! t ! b =
          count_pixels 1 1 ([[[True]]] ! t) ([[[0]]] ! t) (label_of_bin steps b)"
    by auto
  have "label_of_bin steps b \<noteq> 0" for b
    by (simp add: label_of_bin_def)
  then have "pvg ! 0 ! b = 0" if "b < ?nb" for b
    using pvg(3) that by (simp add: count_pixels_def pixels_def)
  moreover have len: "length pvg = 1" "length (pvg ! 0) = ?nb"
    using pvg(2) by (simp_all add: is_array2_iff)
  ultimately have "pvg ! 0 = replicate ?nb 0"
    by (simp add: list_eq_iff_nth_eq)
  with singleton_list [OF len(1)] pvg(1) show ?thesis by simp
qed

lemma compute_pvg_zero_label:
  "compute_pvg [[[True]]] [[[0]]] 256 = Inr [replicate 512 0]"
  using compute_pvg_label_zero [of 256] by simp

lemma pvg_row_sum_classifier:
  assumes "0 \<le> steps" "steps \<le> 255" "is_array3 T (nat H) (nat W) s"
    and "length Ls = T'" "T \<le> T'" "t < T"
    and "\<forall>u<T'. \<exists>lp lr. find_parts (H, W) lp lr = Inr (Ls ! u) \<and> int (length lp) = steps"
  shows "\<exists>pvg. compute_pvg s (map (map (map sint)) Ls) steps = Inr pvg \<and>
           sum_list (pvg ! t) = popcount (nat H) (nat W) (s ! t)"
proof -
  let ?labels = "map (map (map sint)) Ls"
  have frame: "is_array2 (nat H) (nat W) (Ls ! u) \<and>
      (\<forall>y<nat H. \<forall>x<nat W. sint (Ls ! u ! y ! x) \<noteq> 0 \<and> \<bar>sint (Ls ! u ! y ! x)\<bar> \<le> steps)"
    if "u < T'" for u
  proof -
    from assms(7) that obtain lp lr where
      fp: "find_parts (H, W) lp lr = Inr (Ls ! u)" and len: "int (length lp) = steps" by blast
    have "length lp \<le> 255" using len assms(2) by simp
    with find_parts_label_sint [OF fp] len find_parts_Inr [OF fp] show ?thesis by fastforce
  qed
  have a3: "is_array3 T' (nat H) (nat W) ?labels"
    using frame assms(4) by (simp add: is_array3_iff is_array2_iff)
  have "\<forall>y<nat H. \<forall>x<nat W. ?labels ! t ! y ! x \<noteq> 0 \<and> \<bar>?labels ! t ! y ! x\<bar> \<le> steps"
    using frame [of t] assms(4,5,6) by (simp add: is_array2_iff)
  from pvg_row_sum_popcount [OF assms(1,3) a3 assms(5,6) this] show ?thesis .
qed

subsection \<open>The store simulates the functions on values\<close>

lemma extends_refl: "extends h h"
  by (simp add: extends_def)

lemma extends_append: "extends h (h @ xs)"
  by (simp add: extends_def)

lemma extends_trans:
  assumes "extends h h'" "extends h' h''"
  shows "extends h h''"
proof -
  from assms have le: "length h \<le> length h'" "length h' \<le> length h''"
    and eq: "take (length h) h' = h" "take (length h') h'' = h'"
    by (simp_all add: extends_def)
  have "take (length h) h'' = take (length h) (take (length h') h'')"
    using le(1) by (simp add: min_def)
  also have "\<dots> = h" by (simp only: eq)
  finally show ?thesis using le by (simp add: extends_def)
qed

lemma fold_enc:
  "(\<And>k st. k \<in> set ks \<Longrightarrow> f_h k (enc st) = enc (f k st)) \<Longrightarrow>
   fold f_h ks (enc st) = enc (fold f ks st)"
  by (induction ks arbitrary: st) simp_all

lemma for_loop_sim:
  assumes "\<And>k st. k \<in> set ks \<Longrightarrow> sim enc (body k st) (body_h k (enc st))"
  shows "sim enc (for_loop ks body st) (for_loop_st ks body_h (enc st))"
  using assms
proof (induction ks arbitrary: st)
  case Nil
  then show ?case by (simp add: sim_def)
next
  case (Cons k ks)
  have step: "sim enc (body k st) (body_h k (enc st))" using Cons.prems by simp
  show ?case
  proof (cases "body k st")
    case (Inl e)
    with step show ?thesis by (auto simp: sim_def split: prod.splits sum.splits)
  next
    case (Inr st')
    with step have "body_h k (enc st) = (Inr (), enc st')" by (simp add: sim_def)
    moreover have "sim enc (for_loop ks body st') (for_loop_st ks body_h (enc st'))"
      using Cons.IH Cons.prems by simp
    ultimately show ?thesis using Inr by simp
  qed
qed

lemma create_maps_st_eq:
  assumes "i < length h" "h ! i = Float1 iv"
  shows "create_maps_st im_shape c i h =
           (case create_maps im_shape c iv of
              Inl e \<Rightarrow> (Inl e, h)
            | Inr m \<Rightarrow> (Inr (length h), h @ [Float3 m]))"
proof (cases "fst im_shape < 0 \<or> snd im_shape < 0")
  case True
  then show ?thesis using assms by (simp add: create_maps_st_def create_maps_def)
next
  case False
  let ?enc = "\<lambda>L. h @ [Float3 L]"
  let ?p = "length h"
  have inner: "fold (\<lambda>x H. H[?p := Float3 (set3 (float3 (H ! ?p)) j y x
                                       (real y - (c * real x + float1 (H ! i) ! j)))]) xs (?enc L) =
               ?enc (fold (\<lambda>x L. set3 L j y x (real y - (c * real x + iv ! j))) xs L)" for j y xs L
    by (rule fold_enc) (use assms in \<open>simp add: nth_append\<close>)
  have middle: "fold (\<lambda>y. fold (\<lambda>x H. H[?p := Float3 (set3 (float3 (H ! ?p)) j y x
                                       (real y - (c * real x + float1 (H ! i) ! j)))]) xs) ys (?enc L) =
               ?enc (fold (\<lambda>y. fold (\<lambda>x L. set3 L j y x (real y - (c * real x + iv ! j))) xs) ys L)"
    for j xs ys L
    by (rule fold_enc) (rule inner)
  have outer: "fold (\<lambda>j. fold (\<lambda>y. fold (\<lambda>x H. H[?p := Float3 (set3 (float3 (H ! ?p)) j y x
                                       (real y - (c * real x + float1 (H ! i) ! j)))]) xs) ys) js (?enc L) =
               ?enc (fold (\<lambda>j. fold (\<lambda>y. fold (\<lambda>x L. set3 L j y x (real y - (c * real x + iv ! j))) xs) ys) js L)"
    for xs ys js L
    by (rule fold_enc) (rule middle)
  show ?thesis
    using False assms outer
    by (simp add: create_maps_st_def create_maps_def alloc_def Let_def)
qed

lemma sim_extends:
  assumes "sim enc pr hr" "\<And>st. extends h (enc st)"
  shows "extends h (snd hr)"
  using assms by (cases pr) (auto simp: sim_def)

lemma find_parts_st_eq:
  assumes "lp < length h" "la < length h" "h ! lp = Float3 P" "h ! la = Float3 R"
  shows "case find_parts_st im_shape lp (la, k) h of
           (r, h') \<Rightarrow> extends h h' \<and>
             (case find_parts im_shape P (R ! k) of
                Inl e \<Rightarrow> r = Inl e
              | Inr L \<Rightarrow> r = Inr (length h) \<and> h' = h @ [Int8_2 L])"
proof (cases "fst im_shape < 0 \<or> snd im_shape < 0")
  case True
  then show ?thesis
    using assms by (simp add: find_parts_st_def find_parts_def extends_refl)
next
  case False
  let ?enc = "\<lambda>L. h @ [Int8_2 L]"
  let ?p = "length h"
  let ?body = "\<lambda>i j H. case pixel_label (float3 (H ! lp)) (float3 (H ! fst (la, k)) ! snd (la, k)) i j of
                          Inl e \<Rightarrow> (Inl e, H)
                        | Inr v \<Rightarrow> (Inr (), H[?p := Int8_2 (set2 (int8_2 (H ! ?p)) i j (word_of_int v))])"
  have pixel: "sim ?enc (find_parts_pixel P (R ! k) i j L) (?body i j (?enc L))" for i j L
    using assms
    by (cases "pixel_label P (R ! k) i j") (auto simp: sim_def find_parts_pixel_def nth_append)
  have row: "sim ?enc (for_loop js (find_parts_pixel P (R ! k) i) L)
               (for_loop_st js (?body i) (?enc L))" for i js L
    by (rule for_loop_sim) (rule pixel)
  have rows: "sim ?enc (for_loop ys (\<lambda>i. for_loop js (find_parts_pixel P (R ! k) i)) L)
               (for_loop_st ys (\<lambda>i. for_loop_st js (?body i)) (?enc L))" for ys js L
    by (rule for_loop_sim) (rule row)
  let ?L0 = "zeros2 (nat (fst im_shape)) (nat (snd im_shape)) :: int8 list list"
  let ?hr = "for_loop_st (range_py (fst im_shape)) (\<lambda>i. for_loop_st (range_py (snd im_shape)) (?body i))
               (?enc ?L0)"
  have s: "sim ?enc (find_parts im_shape P (R ! k)) ?hr"
    using rows [of "range_py (fst im_shape)" "range_py (snd im_shape)" ?L0] False
    by (simp add: find_parts_def)
  have e: "extends h (snd ?hr)"
    using s by (rule sim_extends) (rule extends_append)
  have fp: "find_parts_st im_shape lp (la, k) h =
      (case ?hr of (Inl e, h2) \<Rightarrow> (Inl e, h2) | (Inr _, h2) \<Rightarrow> (Inr ?p, h2))"
    using False assms by (simp add: find_parts_st_def alloc_def Let_def)
  show ?thesis
  proof (cases "find_parts im_shape P (R ! k)")
    case (Inl err)
    with s have "fst ?hr = Inl err" by (simp add: sim_def)
    with e Inl show ?thesis unfolding fp by (cases ?hr) auto
  next
    case (Inr L)
    with s have "?hr = (Inr (), ?enc L)" by (simp add: sim_def)
    with Inr show ?thesis unfolding fp by (simp add: extends_append)
  qed
qed

lemma get_labels_st_eq:
  "case get_labels_st x_low x_high coef intercept im_shape steps h of
     (r, h') \<Rightarrow> extends h h' \<and>
       (case get_labels x_low x_high coef intercept im_shape steps of
          Inl e \<Rightarrow> r = Inl e
        | Inr L \<Rightarrow> (\<exists>a. r = Inr a \<and> length h \<le> a \<and> a < length h' \<and> h' ! a = Int8_2 L))"
proof (cases "find_orthogonal_points x_low x_high coef intercept steps")
  case (Inl e)
  then show ?thesis by (simp add: get_labels_st_def get_labels_def extends_refl)
next
  case (Inr res)
  then obtain xs ys co io where
    fo: "find_orthogonal_points x_low x_high coef intercept steps = Inr (xs, ys, co, io)"
    by (cases res) auto
  define h3 where "h3 = h @ [Float1 xs, Float1 ys, Float1 io]"
  define io_a where "io_a = Suc (Suc (length h))"
  have io: "io_a < length h3" "h3 ! io_a = Float1 io"
    by (simp_all add: h3_def io_a_def nth_append)
  have e3: "extends h h3" unfolding h3_def by (rule extends_append)
  have gl: "get_labels_st x_low x_high coef intercept im_shape steps h =
      (case create_maps_st im_shape co io_a h3 of
         (Inl e, h4) \<Rightarrow> (Inl e, h4)
       | (Inr labels_parallel, h4) \<Rightarrow>
           (case create_maps_st im_shape coef (length h4) (h4 @ [Float1 [intercept]]) of
              (Inl e, h6) \<Rightarrow> (Inl e, h6)
            | (Inr lr_stack, h6) \<Rightarrow> find_parts_st im_shape labels_parallel (lr_stack, 0) h6))"
    using fo by (simp add: get_labels_st_def alloc_def Let_def h3_def io_a_def split: prod.split sum.split)
  show ?thesis
  proof (cases "create_maps im_shape co io")
    case (Inl e)
    then show ?thesis
      using fo e3 create_maps_st_eq [OF io, of im_shape co]
      by (simp add: gl get_labels_def)
  next
    case lp: (Inr lp)
    define h4 where "h4 = h3 @ [Float3 lp]"
    define h5 where "h5 = h4 @ [Float1 [intercept]]"
    have c1: "create_maps_st im_shape co io_a h3 = (Inr (length h3), h4)"
      using create_maps_st_eq [OF io, of im_shape co] lp by (simp add: h4_def)
    have ic: "length h4 < length h5" "h5 ! length h4 = Float1 [intercept]"
      by (simp_all add: h5_def)
    have e5: "extends h h5" unfolding h5_def h4_def h3_def
      using extends_append [of h "[Float1 xs, Float1 ys, Float1 io] @ [Float3 lp] @ [Float1 [intercept]]"]
      by simp
    show ?thesis
    proof (cases "create_maps im_shape coef [intercept]")
      case (Inl e)
      then show ?thesis
        using fo lp c1 e5 create_maps_st_eq [OF ic, of im_shape coef]
        by (simp add: gl get_labels_def h5_def)
    next
      case lrs: (Inr lrs)
      define h6 where "h6 = h5 @ [Float3 lrs]"
      have c2: "create_maps_st im_shape coef (length h4) h5 = (Inr (length h5), h6)"
        using create_maps_st_eq [OF ic, of im_shape coef] lrs by (simp add: h6_def)
      have e6: "extends h h6" unfolding h6_def h5_def h4_def h3_def
        using extends_append [of h "[Float1 xs, Float1 ys, Float1 io] @ [Float3 lp] @ [Float1 [intercept]] @ [Float3 lrs]"]
        by simp
      have a: "length h3 < length h6" "length h5 < length h6"
        "h6 ! length h3 = Float3 lp" "h6 ! length h5 = Float3 lrs"
        by (simp_all add: h6_def h5_def h4_def nth_append)
      have len: "length h \<le> length h6" using e6 by (simp add: extends_def)
      obtain r h' where rh: "find_parts_st im_shape (length h3) (length h5, 0) h6 = (r, h')"
        by (cases "find_parts_st im_shape (length h3) (length h5, 0) h6") auto
      from find_parts_st_eq [OF a, of im_shape 0] rh
      have fp: "extends h6 h'"
        "case find_parts im_shape lp (lrs ! 0) of
           Inl e \<Rightarrow> r = Inl e
         | Inr L \<Rightarrow> r = Inr (length h6) \<and> h' = h6 @ [Int8_2 L]"
        by simp_all
      have e: "extends h h'" using e6 fp(1) by (rule extends_trans)
      have res: "get_labels_st x_low x_high coef intercept im_shape steps h = (r, h')"
        using c1 c2 rh by (simp add: gl h5_def)
      have pure: "get_labels x_low x_high coef intercept im_shape steps = find_parts im_shape lp (lrs ! 0)"
        using fo lp lrs by (simp add: get_labels_def)
      show ?thesis
      proof (cases "find_parts im_shape lp (lrs ! 0)")
        case (Inl err)
        with fp(2) e show ?thesis by (simp add: res pure)
      next
        case (Inr L)
        with fp(2) have "r = Inr (length h6)" "h' = h6 @ [Int8_2 L]" by simp_all
        with e len Inr show ?thesis by (simp add: res pure)
      qed
    qed
  qed
qed

lemma pvg_frame_sim:
  fixes steps :: int
  assumes "s < length h" "labels < length h" "h ! s = Bool3 sv" "h ! labels = Int3 lv"
  defines "enc \<equiv> \<lambda>st. h @ [Count2 (fst st), Bool3 (snd st), Int1 (all_steps steps)]"
  shows "sim enc (pvg_frame sv lv steps frame st)
           (pvg_frame_st s labels steps (length h) (Suc (length h)) (Suc (Suc (length h))) frame (enc st))"
proof -
  let ?q = "Suc (length h)"
  let ?p = "length h"
  let ?b1 = "\<lambda>(i, j) l. if frame < length lv then Inr (l[i := eq2 (lv ! frame) j]) else Inl IndexError"
  let ?b1h = "\<lambda>(i, j) H. if frame < length (int3 (H ! labels))
                then (Inr (), H[?q := Bool3 ((bool3 (H ! ?q))[i := eq2 (int3 (H ! labels) ! frame) j])])
                else (Inl IndexError, H)"
  let ?b2 = "\<lambda>l i pvg. case and2 (sv ! frame) (l ! i) of
                         Inl e \<Rightarrow> Inl e
                       | Inr m \<Rightarrow> Inr (set2 pvg frame i (sum2 m))"
  let ?b2h = "\<lambda>i H. case and2 (bool3 (H ! s) ! frame) (bool3 (H ! ?q) ! i) of
                       Inl e \<Rightarrow> (Inl e, H)
                     | Inr m \<Rightarrow> (Inr (), H[?p := Count2 (set2 (count2 (H ! ?p)) frame i (sum2 m))])"
  obtain pvg l where st: "st = (pvg, l)" by (cases st) auto
  have s1: "sim (\<lambda>l. enc (pvg, l)) (for_loop ks ?b1 l) (for_loop_st ks ?b1h (enc (pvg, l)))" for ks l
    by (rule for_loop_sim)
      (use assms(1-4) in \<open>auto simp: sim_def enc_def nth_append list_update_append split: prod.splits\<close>)
  have s2: "sim (\<lambda>pv. enc (pv, l1)) (for_loop ks (?b2 l1) pv) (for_loop_st ks ?b2h (enc (pv, l1)))"
    for ks l1 pv
    by (rule for_loop_sim)
      (use assms(1-4) in \<open>auto simp: sim_def enc_def nth_append list_update_append split: sum.splits\<close>)
  have as: "int1 (enc (pvg, l) ! Suc (Suc (length h))) = all_steps steps"
    by (simp add: enc_def nth_append)
  let ?r1 = "for_loop_st (enumerate 0 (all_steps steps)) ?b1h (enc (pvg, l))"
  have fr: "pvg_frame_st s labels steps ?p ?q (Suc (Suc (length h))) frame (enc st) =
      (case ?r1 of (Inl e, h1) \<Rightarrow> (Inl e, h1)
                 | (Inr _, h1) \<Rightarrow> for_loop_st (range_py (steps * 2)) ?b2h h1)"
    unfolding pvg_frame_st_def st as ..
  show ?thesis
  proof (cases "for_loop (enumerate 0 (all_steps steps)) ?b1 l")
    case (Inl e)
    with s1 [of "enumerate 0 (all_steps steps)" l]
    obtain l' where "fst ?r1 = Inl e" "snd ?r1 = enc (pvg, l')" by (auto simp: sim_def)
    then have "?r1 = (Inl e, enc (pvg, l'))" by (cases ?r1) auto
    with Inl show ?thesis
      unfolding fr by (auto simp: sim_def pvg_frame_def st)
  next
    case (Inr l1)
    with s1 [of "enumerate 0 (all_steps steps)" l]
    have r1: "?r1 = (Inr (), enc (pvg, l1))" by (simp add: sim_def)
    have pure: "pvg_frame sv lv steps frame st =
        (case for_loop (range_py (steps * 2)) (?b2 l1) pvg of
           Inl e \<Rightarrow> Inl e | Inr pv \<Rightarrow> Inr (pv, l1))"
      using Inr by (simp add: pvg_frame_def st)
    show ?thesis
      using s2 [of l1 "range_py (steps * 2)" pvg]
      unfolding fr r1 pure
      by (cases "for_loop (range_py (steps * 2)) (?b2 l1) pvg") (auto simp: sim_def)
  qed
qed

lemma compute_pvg_st_eq:
  assumes "s < length h" "labels < length h" "h ! s = Bool3 sv" "h ! labels = Int3 lv"
  shows "case compute_pvg_st s labels steps h of
           (r, h') \<Rightarrow> extends h h' \<and>
             (case compute_pvg sv lv steps of
                Inl e \<Rightarrow> r = Inl e
              | Inr pvg \<Rightarrow> r = Inr (length h) \<and> length h < length h' \<and> h' ! length h = Count2 pvg)"
proof (cases "steps < 0")
  case True
  then show ?thesis
    using assms by (simp add: compute_pvg_st_def compute_pvg_def extends_refl)
next
  case False
  define enc where "enc = (\<lambda>st. h @ [Count2 (fst st), Bool3 (snd st), Int1 (all_steps steps)])"
  let ?pvg0 = "zeros2 (length sv) (nat (steps * 2)) :: nat list list"
  let ?l0 = "replicate (nat (steps * 2)) (case lv of [] \<Rightarrow> [] | m # _ \<Rightarrow> map (map (\<lambda>_. False)) m)"
  let ?hr = "for_loop_st [0..<length sv]
               (pvg_frame_st s labels steps (length h) (Suc (length h)) (Suc (Suc (length h))))
               (enc (?pvg0, ?l0))"
  have cp: "compute_pvg_st s labels steps h =
      (case ?hr of (Inl e, h6) \<Rightarrow> (Inl e, h6) | (Inr _, h6) \<Rightarrow> (Inr (length h), h6))"
    using False assms
    by (simp add: compute_pvg_st_def alloc_def Let_def enc_def nth_append list_update_append
        all_steps_def)
  have s: "sim enc (for_loop [0..<length sv] (pvg_frame sv lv steps) (?pvg0, ?l0)) ?hr"
    unfolding enc_def by (rule for_loop_sim) (rule pvg_frame_sim [OF assms])
  have e: "extends h (snd ?hr)"
    using s by (rule sim_extends) (simp add: enc_def extends_append)
  have pure: "compute_pvg sv lv steps =
      (case for_loop [0..<length sv] (pvg_frame sv lv steps) (?pvg0, ?l0) of
         Inl e \<Rightarrow> Inl e | Inr st \<Rightarrow> Inr (fst st))"
    using False by (simp add: compute_pvg_def)
  show ?thesis
  proof (cases "for_loop [0..<length sv] (pvg_frame sv lv steps) (?pvg0, ?l0)")
    case (Inl err)
    with s have "fst ?hr = Inl err" by (simp add: sim_def)
    with e Inl show ?thesis unfolding cp pure by (cases ?hr) auto
  next
    case (Inr st)
    with s have "?hr = (Inr (), enc st)" by (simp add: sim_def)
    with Inr show ?thesis
      unfolding cp pure by (simp add: enc_def extends_append)
  qed
qed

lemma extends_nth: "extends h h' \<Longrightarrow> a < length h \<Longrightarrow> h' ! a = h ! a"
  unfolding extends_def by (metis nth_take)

lemma compute_pvg_st_type_error:
  assumes "\<not> (\<exists>sv lv. h ! s = Bool3 sv \<and> h ! labels = Int3 lv)"
  shows "compute_pvg_st s labels steps h = (Inl TypeError, h)"
  using assms
  by (cases "h ! s"; cases "h ! labels") (simp_all add: compute_pvg_st_def)

subsection \<open>Rounding to nearest\<close>

lemma rne_of_int: "rne (of_int n) = n"
  by (simp add: rne_def)

lemma rne_small: "\<bar>m\<bar> < 1 / 2 \<Longrightarrow> rne m = 0"
proof (cases "0 \<le> m")
  case True
  assume "\<bar>m\<bar> < 1 / 2"
  with True have "\<lfloor>m\<rfloor> = 0" by (simp add: floor_eq_iff)
  with True \<open>\<bar>m\<bar> < 1 / 2\<close> show ?thesis by (simp add: rne_def)
next
  case False
  assume a: "\<bar>m\<bar> < 1 / 2"
  with False have "\<lfloor>m\<rfloor> = - 1" by (simp add: floor_eq_iff)
  with False a show ?thesis by (simp add: rne_def Let_def)
qed

lemma floor_log2:
  assumes "2 powi e \<le> \<bar>x\<bar>" "\<bar>x\<bar> < 2 powi (e + 1)"
  shows "\<lfloor>log 2 \<bar>x\<bar>\<rfloor> = e"
proof -
  have pos: "0 < \<bar>x\<bar>" using assms(1) by (smt (verit) zero_less_power_int)
  have "(2::real) powr real_of_int e = 2 powi e" "(2::real) powr real_of_int (e + 1) = 2 powi (e + 1)"
    by (simp_all add: powr_real_of_int' del: of_int_add)
  with assms floor_log_eq_powr_iff [OF pos, of 2 e] show ?thesis by simp
qed

lemma round_float_eval:
  assumes "2 powi e \<le> \<bar>x\<bar>" "\<bar>x\<bar> < 2 powi (e + 1)"
  shows "round_float p emin x =
           of_int (rne (x / 2 powi (max e emin - int p + 1))) * 2 powi (max e emin - int p + 1)"
proof -
  have "0 < \<bar>x\<bar>" using assms(1) by (smt (verit) zero_less_power_int)
  then have "x \<noteq> 0" by simp
  then show ?thesis by (simp add: round_float_def floor_log2 [OF assms] Let_def)
qed

lemma round_float_zero: "round_float p emin 0 = 0"
  by (simp add: round_float_def)

lemma log2_bounds:
  assumes "x \<noteq> 0"
  shows "2 powi \<lfloor>log 2 \<bar>x\<bar>\<rfloor> \<le> \<bar>x\<bar> \<and> \<bar>x\<bar> < 2 powi (\<lfloor>log 2 \<bar>x\<bar>\<rfloor> + 1)"
proof -
  have pos: "0 < \<bar>x\<bar>" using assms by simp
  have "(2::real) powr real_of_int \<lfloor>log 2 \<bar>x\<bar>\<rfloor> = 2 powi \<lfloor>log 2 \<bar>x\<bar>\<rfloor>"
    "(2::real) powr real_of_int (\<lfloor>log 2 \<bar>x\<bar>\<rfloor> + 1) = 2 powi (\<lfloor>log 2 \<bar>x\<bar>\<rfloor> + 1)"
    by (simp_all add: powr_real_of_int' del: of_int_add)
  with floor_log_eq_powr_iff [OF pos, of 2 "\<lfloor>log 2 \<bar>x\<bar>\<rfloor>"] show ?thesis by simp
qed

lemma round_float_repr:
  assumes "\<bar>m\<bar> < 2 ^ p" "emin - int p + 1 \<le> k"
  shows "round_float p emin (of_int m * 2 powi k) = of_int m * 2 powi k"
proof (cases "m = 0")
  case True
  then show ?thesis by (simp add: round_float_def)
next
  case False
  define x where "x = real_of_int m * 2 powi k"
  define l where "l = \<lfloor>log 2 \<bar>x\<bar>\<rfloor>"
  define u :: real where "u = 2 powi (max l emin - int p + 1)"
  have x0: "x \<noteq> 0" using False by (simp add: x_def)
  have u0: "u \<noteq> 0" by (simp add: u_def)
  have "\<bar>x\<bar> < 2 powi (int p + k)"
  proof -
    have "\<bar>real_of_int m\<bar> < 2 ^ p" using assms(1)
      by (metis of_int_abs of_int_less_numeral_power_cancel_iff)
    then have "\<bar>real_of_int m\<bar> * 2 powi k < 2 ^ p * 2 powi k"
      by (simp add: mult_strict_right_mono)
    then show ?thesis by (simp add: x_def abs_mult power_int_add)
  qed
  with log2_bounds [OF x0] have "(2::real) powi l < 2 powi (int p + k)"
    unfolding l_def by linarith
  then have "l < int p + k"
    using power_int_increasing [of "int p + k" l "2::real"] by (cases "l < int p + k") auto
  with assms(2) have j: "0 \<le> k - (max l emin - int p + 1)" by simp
  define j where "j = nat (k - (max l emin - int p + 1))"
  have kj: "k = (max l emin - int p + 1) + int j" using j by (simp add: j_def)
  have pk: "(2::real) powi k = u * 2 ^ j"
    unfolding u_def by (subst kj) (simp add: power_int_add)
  have "x / u = of_int (m * 2 ^ j)"
    using u0 by (simp add: x_def pk)
  then have "rne (x / u) = m * 2 ^ j"
    by (simp only: rne_of_int)
  then have "round_float p emin x = of_int (m * 2 ^ j) * u"
    using x0 by (simp add: round_float_def Let_def l_def u_def)
  also have "\<dots> = x" by (simp add: x_def pk)
  finally show ?thesis by (simp add: x_def)
qed

lemma round_float_int:
  "\<bar>m\<bar> < 2 ^ p \<Longrightarrow> emin < int p \<Longrightarrow> round_float p emin (of_int m) = of_int m"
  using round_float_repr [of m p emin 0] by simp

lemma round_float_tiny:
  assumes "\<bar>x\<bar> < 2 powi (emin - int p)"
  shows "round_float p emin x = 0"
proof (cases "x = 0")
  case True
  then show ?thesis by (simp add: round_float_def)
next
  case False
  define l where "l = \<lfloor>log 2 \<bar>x\<bar>\<rfloor>"
  define u :: real where "u = 2 powi (emin - int p + 1)"
  have u0: "0 < u" by (simp add: u_def)
  from log2_bounds [OF False] assms have "(2::real) powi l < 2 powi (emin - int p)"
    unfolding l_def by linarith
  then have "l < emin - int p"
    using power_int_increasing [of "emin - int p" l "2::real"] by (cases "l < emin - int p") auto
  then have m: "max l emin = emin" by simp
  have "u = 2 * 2 powi (emin - int p)"
    unfolding u_def by (simp add: power_int_add)
  with assms have "\<bar>x\<bar> < u / 2" by simp
  then have "\<bar>x / u\<bar> < 1 / 2" using u0 by (simp add: field_simps)
  then have "rne (x / u) = 0" by (rule rne_small)
  then show ?thesis using False by (simp add: round_float_def Let_def l_def [symmetric] m u_def [symmetric])
qed

lemma ieee_ops_sel:
  "f_add (ieee_ops tn atn p) = (\<lambda>a b. round_float 53 (- 1022) (a + b))"
  "f_sub (ieee_ops tn atn p) = (\<lambda>a b. round_float 53 (- 1022) (a - b))"
  "f_mul (ieee_ops tn atn p) = (\<lambda>a b. round_float 53 (- 1022) (a * b))"
  "f_div (ieee_ops tn atn p) = (\<lambda>a b. round_float 53 (- 1022) (a / b))"
  "f_tan (ieee_ops tn atn p) = tn" "f_arctan (ieee_ops tn atn p) = atn" "f_pi (ieee_ops tn atn p) = p"
  "f_to32 (ieee_ops tn atn p) = round_float 24 (- 126)"
  "f_sqr32 (ieee_ops tn atn p) = (\<lambda>x. round_float 24 (- 126) (x * x))"
  "f_sqrt32 (ieee_ops tn atn p) = (\<lambda>x. round_float 24 (- 126) (sqrt x))"
  by (simp_all add: ieee_ops_def)

subsection \<open>The functions in floating point and the exact ones\<close>

lemma exact_ops_sel:
  "f_add exact_ops = (+)" "f_sub exact_ops = (-)" "f_mul exact_ops = (*)" "f_div exact_ops = (/)"
  "f_tan exact_ops = tan" "f_arctan exact_ops = arctan" "f_pi exact_ops = pi"
  "f_to32 exact_ops = (\<lambda>x. x)" "f_sqr32 exact_ops = (\<lambda>x. x ^ 2)" "f_sqrt32 exact_ops = sqrt"
  by (simp_all add: exact_ops_def)

lemma linspace_exact: "linspace_fl exact_ops a b num = linspace a b num"
  by (auto simp: linspace_fl_def linspace_def exact_ops_sel Let_def)

lemma find_orthogonal_points_exact:
  "find_orthogonal_points_fl exact_ops x_low x_high coef intercept steps =
   find_orthogonal_points x_low x_high coef intercept steps"
  by (simp add: find_orthogonal_points_fl_def find_orthogonal_points_def linspace_exact
      exact_ops_sel cong: sum.case_cong)

lemma create_maps_exact: "create_maps_fl exact_ops im_shape c i = create_maps im_shape c i"
  by (simp add: create_maps_fl_def create_maps_def exact_ops_sel)

lemma pixel_label_exact: "pixel_label_fl exact_ops lp lr i j = pixel_label lp lr i j"
  by (simp add: pixel_label_fl_def pixel_label_def exact_ops_sel cong: sum.case_cong)

lemma find_parts_exact: "find_parts_fl exact_ops im_shape lp lr = find_parts im_shape lp lr"
  by (simp add: find_parts_fl_def find_parts_def find_parts_pixel_fl_def [abs_def]
      find_parts_pixel_def [abs_def] pixel_label_exact)

lemma linspace_fl_error: "num < 0 \<Longrightarrow> linspace_fl ops a b num = Inl ValueError"
  by (simp add: linspace_fl_def)



lemma find_orthogonal_points_fl_error:
  "steps < 0 \<Longrightarrow> find_orthogonal_points_fl ops x_low x_high coef intercept steps = Inl ValueError"
  by (simp add: find_orthogonal_points_fl_def linspace_fl_def)


lemma create_maps_fl_cells:
  assumes "0 \<le> H" "0 \<le> W"
  shows "\<exists>m. create_maps_fl ops (H, W) c i = Inr m \<and>
           cells3 (length i) (nat H) (nat W) m
             (\<lambda>j y x. f_to32 ops (f_sub ops (real y) (f_add ops (f_mul ops c (real x)) (i ! j))))"
proof -
  have z: "cells3 (length i) (nat H) (nat W) (zeros3 (length i) (nat H) (nat W) :: real list list list) (\<lambda>_ _ _. 0)"
    by (simp add: cells3_def is_array3_zeros3) (simp add: zeros3_def zeros2_def)
  show ?thesis
    using assms fill_stack [OF z, of "\<lambda>j y x. f_to32 ops (f_sub ops (real y) (f_add ops (f_mul ops c (real x)) (i ! j)))"
        "range_py W" "range_py H" "[0..<length i]"]
    by (auto simp: create_maps_fl_def range_py_def elim!: cells3_cong)
qed

lemma create_maps_fl_error:
  "H < 0 \<or> W < 0 \<Longrightarrow> create_maps_fl ops (H, W) c i = Inl ValueError"
  by (simp add: create_maps_fl_def)

lemma pixel_label_fl_Inr:
  assumes "pixel_label_fl ops lp lr y x = Inr v"
  shows "\<exists>k. first_min (map (\<lambda>m. f_sqrt32 ops (f_sqr32 ops (m ! y ! x))) lp) k \<and>
             v = sign_of (lr ! y ! x) * (int k + 1)"
proof -
  from assms obtain col k where c: "column lp y x = Inr col"
    and k: "argmin (map (\<lambda>d. f_sqrt32 ops (f_sqr32 ops d)) col) = Inr k"
    and v: "v = sign_of (lr ! y ! x) * (int k + 1)"
    by (auto simp: pixel_label_fl_def get2_def sign_of_def Let_def split: sum.splits if_splits)
  from column_Inr [OF c] k
  have "first_min (map (\<lambda>m. f_sqrt32 ops (f_sqr32 ops (m ! y ! x))) lp) k"
    by (simp add: argmin_Inr_iff comp_def)
  with v show ?thesis by blast
qed

lemma find_parts_fl_row:
  assumes "for_loop js (find_parts_pixel_fl ops lp lr i) L0 = Inr L'"
    and "is_array2 h w L0" "i < h" "\<forall>j\<in>set js. j < w"
  shows "is_array2 h w L' \<and>
         (\<forall>j\<in>set js. \<exists>v. pixel_label_fl ops lp lr i j = Inr v \<and> L' ! i ! j = word_of_int v) \<and>
         (\<forall>y<h. \<forall>x<w. \<not> (y = i \<and> x \<in> set js) \<longrightarrow> L' ! y ! x = L0 ! y ! x)"
  using assms
proof (induction js arbitrary: L0)
  case Nil
  then show ?case by simp
next
  case (Cons j js)
  from Cons.prems(1) obtain L1 where step: "find_parts_pixel_fl ops lp lr i j L0 = Inr L1"
    and rest1: "for_loop js (find_parts_pixel_fl ops lp lr i) L1 = Inr L'"
    by (auto split: sum.splits)
  from step obtain v where v: "pixel_label_fl ops lp lr i j = Inr v"
    and L1_eq: "L1 = set2 L0 i j (word_of_int v)"
    by (auto simp: find_parts_pixel_fl_def split: sum.splits)
  from rest1 L1_eq
  have rest: "for_loop js (find_parts_pixel_fl ops lp lr i) (set2 L0 i j (word_of_int v)) = Inr L'"
    by simp
  let ?L1 = "set2 L0 i j (word_of_int v :: int8)"
  have L1: "is_array2 h w ?L1" using Cons.prems(2) by (rule is_array2_set2)
  have jw: "j < w" using Cons.prems(4) by simp
  from Cons.IH [OF rest L1 Cons.prems(3)] Cons.prems(4)
  have IH: "is_array2 h w L'"
    "\<forall>j\<in>set js. \<exists>v. pixel_label_fl ops lp lr i j = Inr v \<and> L' ! i ! j = word_of_int v"
    "\<forall>y<h. \<forall>x<w. \<not> (y = i \<and> x \<in> set js) \<longrightarrow> L' ! y ! x = ?L1 ! y ! x"
    by auto
  have cell: "L' ! i ! j = word_of_int v" if "j \<notin> set js"
    using IH(3) that Cons.prems(3) jw nth_set2 [OF Cons.prems(2), of i j i j] by simp
  have "\<exists>v. pixel_label_fl ops lp lr i j = Inr v \<and> L' ! i ! j = word_of_int v"
    using v cell IH(2) by (cases "j \<in> set js") auto
  moreover have "\<forall>y<h. \<forall>x<w. \<not> (y = i \<and> x \<in> set (j # js)) \<longrightarrow> L' ! y ! x = L0 ! y ! x"
    using IH(3) nth_set2 [OF Cons.prems(2)] by auto
  ultimately show ?case using IH(1,2) by simp
qed

lemma find_parts_fl_rows:
  assumes "for_loop ys (\<lambda>i. for_loop js (find_parts_pixel_fl ops lp lr i)) L0 = Inr L'"
    and "is_array2 h w L0" "\<forall>i\<in>set ys. i < h" "\<forall>j\<in>set js. j < w"
  shows "is_array2 h w L' \<and>
         (\<forall>i\<in>set ys. \<forall>j\<in>set js. \<exists>v. pixel_label_fl ops lp lr i j = Inr v \<and> L' ! i ! j = word_of_int v) \<and>
         (\<forall>y<h. \<forall>x<w. \<not> (y \<in> set ys \<and> x \<in> set js) \<longrightarrow> L' ! y ! x = L0 ! y ! x)"
  using assms
proof (induction ys arbitrary: L0)
  case Nil
  then show ?case by simp
next
  case (Cons i ys)
  from Cons.prems(1) obtain L1 where row: "for_loop js (find_parts_pixel_fl ops lp lr i) L0 = Inr L1"
    and rest: "for_loop ys (\<lambda>i. for_loop js (find_parts_pixel_fl ops lp lr i)) L1 = Inr L'"
    by (auto split: sum.splits)
  have ih: "i < h" using Cons.prems(3) by simp
  from find_parts_fl_row [OF row Cons.prems(2) ih Cons.prems(4)]
  have R: "is_array2 h w L1"
    "\<forall>j\<in>set js. \<exists>v. pixel_label_fl ops lp lr i j = Inr v \<and> L1 ! i ! j = word_of_int v"
    "\<forall>y<h. \<forall>x<w. \<not> (y = i \<and> x \<in> set js) \<longrightarrow> L1 ! y ! x = L0 ! y ! x"
    by auto
  from Cons.IH [OF rest R(1)] Cons.prems(3,4)
  have IH: "is_array2 h w L'"
    "\<forall>i\<in>set ys. \<forall>j\<in>set js. \<exists>v. pixel_label_fl ops lp lr i j = Inr v \<and> L' ! i ! j = word_of_int v"
    "\<forall>y<h. \<forall>x<w. \<not> (y \<in> set ys \<and> x \<in> set js) \<longrightarrow> L' ! y ! x = L1 ! y ! x"
    by auto
  have "\<exists>v. pixel_label_fl ops lp lr i j = Inr v \<and> L' ! i ! j = word_of_int v" if "j \<in> set js" for j
  proof (cases "i \<in> set ys")
    case True
    with IH(2) that show ?thesis by blast
  next
    case False
    have "j < w" using that Cons.prems(4) by simp
    with False IH(3) ih have "L' ! i ! j = L1 ! i ! j" by simp
    with R(2) that show ?thesis by auto
  qed
  moreover have "\<forall>y<h. \<forall>x<w. \<not> (y \<in> set (i # ys) \<and> x \<in> set js) \<longrightarrow> L' ! y ! x = L0 ! y ! x"
    using IH(3) R(3) by auto
  ultimately show ?case using IH(1,2) by auto
qed

lemma find_parts_fl_Inr:
  assumes "find_parts_fl ops (H, W) lp lr = Inr L"
  shows "is_array2 (nat H) (nat W) L \<and>
         (\<forall>y<nat H. \<forall>x<nat W. \<exists>v. pixel_label_fl ops lp lr y x = Inr v \<and> L ! y ! x = word_of_int v)"
proof -
  from assms have loop: "for_loop [0..<nat H] (\<lambda>i. for_loop [0..<nat W] (find_parts_pixel_fl ops lp lr i))
      (zeros2 (nat H) (nat W)) = Inr L"
    by (simp add: find_parts_fl_def range_py_def split: if_splits)
  from find_parts_fl_rows [OF loop is_array2_zeros2] show ?thesis by simp
qed

lemma find_parts_fl_label_sint:
  assumes "find_parts_fl ops (H, W) lp lr = Inr L" "y < nat H" "x < nat W"
  shows "\<exists>k. first_min (map (\<lambda>m. f_sqrt32 ops (f_sqr32 ops (m ! y ! x))) lp) k \<and>
           sint (L ! y ! x) = (sign_of (lr ! y ! x) * (int k + 1) + 128) mod 256 - 128 \<and>
           (length lp \<le> 127 \<longrightarrow> sint (L ! y ! x) = sign_of (lr ! y ! x) * (int k + 1)) \<and>
           (length lp \<le> 255 \<longrightarrow> sint (L ! y ! x) \<noteq> 0 \<and> \<bar>sint (L ! y ! x)\<bar> \<le> int (length lp))"
proof -
  from find_parts_fl_Inr [OF assms(1)] assms(2,3) obtain v where
    v: "pixel_label_fl ops lp lr y x = Inr v" "L ! y ! x = word_of_int v" by blast
  from pixel_label_fl_Inr [OF v(1)] v(2) obtain k where
    k: "first_min (map (\<lambda>m. f_sqrt32 ops (f_sqr32 ops (m ! y ! x))) lp) k"
    and l: "L ! y ! x = word_of_int (sign_of (lr ! y ! x) * (int k + 1))" by auto
  have kl: "k < length lp" using k by (simp add: first_min_def)
  have "sint (L ! y ! x) = (sign_of (lr ! y ! x) * (int k + 1) + 128) mod 256 - 128"
    unfolding l by (rule sint_int8_wrap)
  moreover have "sint (L ! y ! x) = sign_of (lr ! y ! x) * (int k + 1)" if "length lp \<le> 127"
    unfolding l using kl that by (intro label_exact sign_of_cases) simp
  moreover have "sint (L ! y ! x) \<noteq> 0 \<and> \<bar>sint (L ! y ! x)\<bar> \<le> int (length lp)" if "length lp \<le> 255"
    unfolding l using kl that by (intro label_magnitude sign_of_cases)
  ultimately show ?thesis using k by blast
qed


section \<open>The claims\<close>

subsection \<open>The distance maps\<close>

text \<open>
  Claim C6, as amended. For every image shape \<open>(H, W)\<close>, slope \<open>c\<close> and intercept array
  \<open>i\<close>, \<open>_create_maps\<close> returns a stack with one \<open>H \<times> W\<close> array per intercept, and its
  cell \<open>(k, y, x)\<close> is the \<open>float32\<close> rounding of the \<open>float64\<close> value of
  \<open>y - (c * x + i[k])\<close>, each operation rounded: the signed vertical distance of the
  pixel to line \<open>k\<close> (not the Euclidean one) up to these roundings.
\<close>

theorem create_maps_rounded_distance:
  assumes "0 \<le> H" "0 \<le> W"
  shows "\<exists>m. create_maps_fl ops (H, W) c i = Inr m \<and> is_array3 (length i) (nat H) (nat W) m \<and>
           (\<forall>k<length i. \<forall>y<nat H. \<forall>x<nat W.
              m ! k ! y ! x =
                f_to32 ops (f_sub ops (real y) (f_add ops (f_mul ops c (real x)) (i ! k))))"
  using create_maps_fl_cells [OF assms, of ops c i] unfolding cells3_def by blast

theorem create_maps_rounded_distance_witness:
  "(0::int) \<le> 2 \<and> (0::int) \<le> 3 \<and>
   (\<forall>tn atn p. \<exists>m. create_maps_fl (ieee_ops tn atn p) (2, 3) (1 / 2) [0, 3] = Inr m \<and> length m = 2 \<and>
        m ! 0 ! 1 ! 2 = 0 \<and> m ! 1 ! 0 ! 1 = - 7 / 2)"
proof -
  have r: "round_float 53 (- 1022) 1 = 1" "round_float 53 (- 1022) (1 / 2) = 1 / 2"
    "round_float 53 (- 1022) (7 / 2) = 7 / 2" "round_float 53 (- 1022) (- (7 / 2)) = - (7 / 2)"
    "round_float 24 (- 126) (- (7 / 2)) = - (7 / 2)"
    using round_float_repr [of 1 53 "- 1022" 0] round_float_repr [of 1 53 "- 1022" "- 1"]
      round_float_repr [of 7 53 "- 1022" "- 1"] round_float_repr [of "- 7" 53 "- 1022" "- 1"]
      round_float_repr [of "- 7" 24 "- 126" "- 1"]
    by simp_all
  have "\<exists>m. create_maps_fl (ieee_ops tn atn p) (2, 3) (1 / 2) [0, 3] = Inr m \<and> length m = 2 \<and>
        m ! 0 ! 1 ! 2 = 0 \<and> m ! 1 ! 0 ! 1 = - 7 / 2" for tn atn p
  proof -
    obtain m where m: "create_maps_fl (ieee_ops tn atn p) (2, 3) (1 / 2) [0, 3] = Inr m"
      "is_array3 (length [0, 3 :: real]) (nat 2) (nat 3) m"
      "\<forall>k<length [0, 3 :: real]. \<forall>y<nat 2. \<forall>x<nat 3.
          m ! k ! y ! x =
            f_to32 (ieee_ops tn atn p) (f_sub (ieee_ops tn atn p) (real y)
              (f_add (ieee_ops tn atn p) (f_mul (ieee_ops tn atn p) (1 / 2) (real x)) ([0, 3] ! k)))"
      using create_maps_rounded_distance [of 2 3 "ieee_ops tn atn p" "1 / 2" "[0, 3]"] by auto
    from m(3) have "m ! 0 ! 1 ! 2 =
        f_to32 (ieee_ops tn atn p) (f_sub (ieee_ops tn atn p) (real 1)
              (f_add (ieee_ops tn atn p) (f_mul (ieee_ops tn atn p) (1 / 2) (real 2)) ([0, 3] ! 0)))"
      by (simp del: One_nat_def)
    then have a: "m ! 0 ! 1 ! 2 = 0"
      by (simp add: ieee_ops_sel r round_float_zero)
    from m(3) have "m ! 1 ! 0 ! 1 =
        f_to32 (ieee_ops tn atn p) (f_sub (ieee_ops tn atn p) (real 0)
              (f_add (ieee_ops tn atn p) (f_mul (ieee_ops tn atn p) (1 / 2) (real 1)) ([0, 3] ! 1)))"
      by (simp del: One_nat_def)
    then have b: "m ! 1 ! 0 ! 1 = - 7 / 2"
      by (simp add: ieee_ops_sel r round_float_zero)
    from a b m(1,2) show ?thesis by (simp add: is_array3_def)
  qed
  then show ?thesis by simp
qed

text \<open>
  Claim C6 as stated fails: the cell is not always \<open>y - (c * x + i[k])\<close> itself. With
  the slope \<open>c = 1 + 1 / 2 ^ 25\<close> (a \<open>float64\<close>) and the intercept 0, the distance at the
  pixel \<open>(0, 1)\<close> is \<open>- (1 + 1 / 2 ^ 25)\<close>, which no \<open>float32\<close> holds: the cell is \<open>-1\<close>.
\<close>

theorem create_maps_cell_rounded:
  "\<forall>tn atn p. \<exists>m. create_maps_fl (ieee_ops tn atn p) (1, 2) (1 + 1 / 2 ^ 25) [0] = Inr m \<and>
      m ! 0 ! 0 ! 1 = - 1 \<and>
      m ! 0 ! 0 ! 1 \<noteq> real 0 - ((1 + 1 / 2 ^ 25) * real 1 + [0] ! 0)"
proof (intro allI)
  fix tn atn :: "real \<Rightarrow> real" and p :: real
  have c: "round_float 53 (- 1022) (33554433 / 33554432) = 33554433 / 33554432"
    "round_float 53 (- 1022) (- (33554433 / 33554432)) = - (33554433 / 33554432)"
    using round_float_repr [of 33554433 53 "- 1022" "- 25"]
      round_float_repr [of "- 33554433" 53 "- 1022" "- 25"]
    by simp_all
  have t: "round_float 24 (- 126) (- (33554433 / 33554432)) = - 1"
    using round_float_eval [of 0 "- (33554433 / 33554432)" 24 "- 126"]
    by (simp add: rne_def)
  have "create_maps_fl (ieee_ops tn atn p) (1, 2) (1 + 1 / 2 ^ 25) [0] =
          Inr [[[round_float 24 (- 126) (round_float 53 (- 1022) (0 - round_float 53 (- 1022) (round_float 53 (- 1022) ((1 + 1 / 2 ^ 25) * 0) + 0))),
                 round_float 24 (- 126) (round_float 53 (- 1022) (0 - round_float 53 (- 1022) (round_float 53 (- 1022) ((1 + 1 / 2 ^ 25) * 1) + 0)))]]]"
    by (simp add: create_maps_fl_def range_py_def zeros3_def zeros2_def set3_def set2_def
        ieee_ops_sel upt_rec numeral_2_eq_2)
  then show "\<exists>m. create_maps_fl (ieee_ops tn atn p) (1, 2) (1 + 1 / 2 ^ 25) [0] = Inr m \<and>
      m ! 0 ! 0 ! 1 = - 1 \<and>
      m ! 0 ! 0 ! 1 \<noteq> real 0 - ((1 + 1 / 2 ^ 25) * real 1 + [0] ! 0)"
    by (simp add: c t)
qed

subsection \<open>The orthogonal samples\<close>




subsection \<open>The labels\<close>

text \<open>
  Claim C2 (every pixel gets one nonzero label of magnitude in \<open>[1, steps]\<close>) fails on
  the code with 256 samples. On a \<open>256 \<times> 256\<close> image whose axis is the diagonal
  \<open>y = x\<close> between \<open>x = 0\<close> and \<open>x = 255\<close>, the pixel \<open>(255, 255)\<close> lies on the last
  orthogonal line, so \<open>closest_to + 1 = 256\<close>, whose low 8 bits are 0: the pixel is
  labelled 0. The same happens on a \<open>1 \<times> 1\<close> image with the axis \<open>y = x - 510\<close>.
\<close>

theorem get_labels_zero_label:
  "get_labels 0 255 1 (- 510) (1, 1) 256 = Inr [[0]] \<and>
   (\<exists>L. get_labels 0 255 1 0 (256, 256) 256 = Inr L \<and> sint (L ! 255 ! 255) = 0)"
  using get_labels_wrap_256 [of 256] get_labels_diagonal_256 by simp

text \<open>
  Claim C3 (the label is \<open>sign * (closest + 1)\<close>) fails on the code with 128 samples.
  On a \<open>1 \<times> 1\<close> image with the axis \<open>y = x - 254\<close> between \<open>x = 0\<close> and \<open>x = 127\<close>,
  the distance maps at the pixel \<open>(0, 0)\<close> are \<open>254 - 2 * k\<close> and the main-axis map is
  254: the loop body computes \<open>sign * (closest_to + 1) = 128\<close> and the \<open>int8\<close> array
  stores \<open>-128\<close>. The same happens at the pixel \<open>(127, 127)\<close> of a \<open>128 \<times> 128\<close> image
  whose axis is the diagonal \<open>y = x\<close>.
\<close>

theorem find_parts_label_128:
  "pixel_label (map (\<lambda>k. [[254 - 2 * real k]]) [0..<128]) [[254]] 0 0 = Inr 128 \<and>
   find_parts (1, 1) (map (\<lambda>k. [[254 - 2 * real k]]) [0..<128]) [[254]] = Inr [[- 128]] \<and>
   get_labels 0 127 1 (- 254) (1, 1) 128 = Inr [[- 128]] \<and>
   (\<exists>L. get_labels 0 127 1 0 (128, 128) 128 = Inr L \<and> sint (L ! 127 ! 127) = - 128)"
  using pixel_label_128 find_parts_128 get_labels_wrap_128 [of 128] get_labels_diagonal_128
  by simp

text \<open>
  Claim C10, as amended. The label map is stored as 8-bit signed integers: every label
  is \<open>sign * (closest + 1)\<close> reduced modulo \<open>2^8\<close> into \<open>[-128, 127]\<close>, where
  \<open>closest\<close> is the first index of the least \<open>sqrt(orthogonalMaps[k, y, x] ** 2)\<close> as
  the \<open>float32\<close> operations compute it. With at most 127 maps the label is
  \<open>sign * (closest + 1)\<close> itself; with at most 255 maps it is nonzero and its magnitude
  lies in \<open>[1, steps]\<close>. From 128 samples on, a pixel on the positive side nearest to
  sample 127 is stored as \<open>-128\<close> instead of 128, and from 256 samples on, a pixel
  nearest to sample 255 is labelled 0.
\<close>

theorem int8_label_wrap:
  "(find_parts_fl ops (H, W) lp lr = Inr L \<and> y < nat H \<and> x < nat W \<longrightarrow>
      (\<exists>k. first_min (map (\<lambda>m. f_sqrt32 ops (f_sqr32 ops (m ! y ! x))) lp) k \<and>
           sint (L ! y ! x) = (sign_of (lr ! y ! x) * (int k + 1) + 128) mod 256 - 128 \<and>
           (length lp \<le> 127 \<longrightarrow> sint (L ! y ! x) = sign_of (lr ! y ! x) * (int k + 1)) \<and>
           (length lp \<le> 255 \<longrightarrow> sint (L ! y ! x) \<noteq> 0 \<and> \<bar>sint (L ! y ! x)\<bar> \<le> int (length lp)))) \<and>
   (128 \<le> steps \<longrightarrow>
      get_labels 0 (real_of_int steps - 1) 1 (- 254) (1, 1) steps = Inr [[- 128]]) \<and>
   (256 \<le> steps \<longrightarrow>
      get_labels 0 (real_of_int steps - 1) 1 (- 510) (1, 1) steps = Inr [[0]])"
  using find_parts_fl_label_sint [of ops H W lp lr L y x] get_labels_wrap_128 [of steps]
    get_labels_wrap_256 [of steps]
  by blast

theorem int8_label_wrap_witness:
  "\<forall>tn atn p.
     find_parts_fl (ieee_ops tn atn p) (1, 2) [[[3, - 1 / 2 ^ 100]], [[- 2, 0]]] [[0, - 1]] =
       Inr [[2, - 1]] \<and>
     (\<exists>k. first_min (map (\<lambda>m. f_sqrt32 (ieee_ops tn atn p) (f_sqr32 (ieee_ops tn atn p) (m ! 0 ! 1)))
                      [[[3, - 1 / 2 ^ 100]], [[- 2, 0 :: real]]]) k \<and>
          sint ([[2, - 1 :: int8]] ! 0 ! 1) = sign_of ([[0, - 1]] ! 0 ! 1) * (int k + 1)) \<and>
     get_labels 0 299 1 (- 254) (1, 1) 300 = Inr [[- 128]] \<and>
     get_labels 0 299 1 (- 510) (1, 1) 300 = Inr [[0]]"
proof (intro allI)
  fix tn atn :: "real \<Rightarrow> real" and p :: real
  let ?ops = "ieee_ops tn atn p"
  have r: "round_float 24 (- 126) 9 = 9" "round_float 24 (- 126) 4 = 4"
    "round_float 24 (- 126) 3 = 3" "round_float 24 (- 126) 2 = 2"
    using round_float_int [of 9 24 "- 126"] round_float_int [of 4 24 "- 126"]
      round_float_int [of 3 24 "- 126"] round_float_int [of 2 24 "- 126"]
    by simp_all
  have t: "round_float 24 (- 126) (1 / 2 ^ 100 * (1 / 2 ^ 100)) = 0"
    by (rule round_float_tiny) (simp add: power_int_minus field_simps)
  have fp: "find_parts_fl ?ops (1, 2) [[[3, - 1 / 2 ^ 100]], [[- 2, 0]]] [[0, - 1]] = Inr [[2, - 1]]"
    using t
    by (simp add: find_parts_fl_def range_py_def find_parts_pixel_fl_def pixel_label_fl_def get2_def
        argmin_def zeros2_def set2_def upt_rec numeral_2_eq_2 ieee_ops_sel r round_float_zero)
  from int8_label_wrap [of ?ops 1 2 "[[[3, - 1 / 2 ^ 100]], [[- 2, 0]]]" "[[0, - 1]]" "[[2, - 1]]" 0 1 300] fp
  show "find_parts_fl ?ops (1, 2) [[[3, - 1 / 2 ^ 100]], [[- 2, 0]]] [[0, - 1]] =
       Inr [[2, - 1]] \<and>
     (\<exists>k. first_min (map (\<lambda>m. f_sqrt32 ?ops (f_sqr32 ?ops (m ! 0 ! 1)))
                      [[[3, - 1 / 2 ^ 100]], [[- 2, 0 :: real]]]) k \<and>
          sint ([[2, - 1 :: int8]] ! 0 ! 1) = sign_of ([[0, - 1]] ! 0 ! 1) * (int k + 1)) \<and>
     get_labels 0 299 1 (- 254) (1, 1) 300 = Inr [[- 128]] \<and>
     get_labels 0 299 1 (- 510) (1, 1) 300 = Inr [[0]]"
    by auto
qed

text \<open>
  Claim C10 as stated says that the magnitude guarantee holds only for
  \<open>steps \<le> 127\<close>. It also holds with 128 maps: every stored label is nonzero and
  lies in \<open>[-128, 127]\<close>.
\<close>

theorem int8_magnitude_128:
  "\<not> (\<forall>K. (\<forall>H W lp lr L y x. length lp = K \<longrightarrow> find_parts (H, W) lp lr = Inr L \<longrightarrow>
              y < nat H \<longrightarrow> x < nat W \<longrightarrow>
              sint (L ! y ! x) \<noteq> 0 \<and> \<bar>sint (L ! y ! x)\<bar> \<le> int K) \<longrightarrow> K \<le> 127)"
proof
  assume a: "\<forall>K. (\<forall>H W lp lr L y x. length lp = K \<longrightarrow> find_parts (H, W) lp lr = Inr L \<longrightarrow>
              y < nat H \<longrightarrow> x < nat W \<longrightarrow>
              sint (L ! y ! x) \<noteq> 0 \<and> \<bar>sint (L ! y ! x)\<bar> \<le> int K) \<longrightarrow> K \<le> 127"
  have "\<forall>H W lp lr L y x. length lp = 128 \<longrightarrow> find_parts (H, W) lp lr = Inr L \<longrightarrow>
              y < nat H \<longrightarrow> x < nat W \<longrightarrow>
              sint (L ! y ! x) \<noteq> 0 \<and> \<bar>sint (L ! y ! x)\<bar> \<le> int 128"
    using find_parts_label_sint by fastforce
  with a have "(128::nat) \<le> 127" by blast
  then show False by simp
qed

subsection \<open>Invalid parameters\<close>




subsection \<open>The phonovibrogram\<close>

text \<open>
  Claim C4. In \<open>compute_pvg\<close> bin \<open>b\<close> has the label \<open>label_of_bin steps b\<close>: bins
  \<open>0..steps-1\<close> map to \<open>steps, steps-1, \<dots>, 1\<close> and bins \<open>steps..2*steps-1\<close> map to
  \<open>-1, -2, \<dots>, -steps\<close>; and \<open>PVG[t, b]\<close> is the number of pixels at which the
  frame-\<open>t\<close> segmentation mask is true and the frame-\<open>t\<close> label map equals the label
  of bin \<open>b\<close>.
\<close>

theorem compute_pvg_bins:
  assumes "0 \<le> steps" "is_array3 T h w s" "is_array3 T' h w labels" "T \<le> T'"
  shows "\<exists>pvg. compute_pvg s labels steps = Inr pvg \<and> is_array2 T (nat (steps * 2)) pvg \<and>
           (\<forall>b<nat (steps * 2). all_steps steps ! b = label_of_bin steps b) \<and>
           (\<forall>t<T. \<forall>b<nat (steps * 2).
              pvg ! t ! b = count_pixels h w (s ! t) (labels ! t) (all_steps steps ! b))"
  using compute_pvg_cells [OF assms] all_steps_nth [OF assms(1)] by auto

theorem compute_pvg_bins_witness:
  "(0::int) \<le> 2 \<and> is_array3 1 2 2 [[[True, True], [False, True]]] \<and>
   is_array3 1 2 2 [[[1, - 1], [2, - 2 :: int]]] \<and>
   all_steps 2 = [2, 1, - 1, - 2] \<and>
   (\<exists>pvg. compute_pvg [[[True, True], [False, True]]] [[[1, - 1], [2, - 2]]] 2 = Inr pvg \<and>
          pvg ! 0 ! 0 = 0 \<and> pvg ! 0 ! 1 = 1 \<and> pvg ! 0 ! 2 = 1 \<and> pvg ! 0 ! 3 = 1)"
proof -
  have a: "is_array3 1 2 2 [[[True, True], [False, True]]]"
    "is_array3 1 2 2 [[[1, - 1], [2, - 2 :: int]]]"
    by (simp_all add: is_array3_def is_array2_def)
  have st: "all_steps 2 = [2, 1, - 1, - 2]"
    by (simp add: all_steps_def Let_def upto_rec1 [of 1] upto_rec1 [of 2] upto_rec1 [of 3]
        numeral_2_eq_2)
  from compute_pvg_bins [OF _ a, of 2] obtain pvg where
    pvg: "compute_pvg [[[True, True], [False, True]]] [[[1, - 1], [2, - 2]]] 2 = Inr pvg"
      "\<forall>t<1. \<forall>b<nat (2 * 2). pvg ! t ! b =
          count_pixels 2 2 ([[[True, True], [False, True]]] ! t) ([[[1, - 1], [2, - 2]]] ! t)
            (all_steps 2 ! b)"
    by auto
  have c: "pvg ! 0 ! b = count_pixels 2 2 [[True, True], [False, True]] [[1, - 1], [2, - 2]]
      ([2, 1, - 1, - 2] ! b)" if "b < 4" for b
    using pvg(2) that by (simp add: st)
  have "pvg ! 0 ! 0 = 0" "pvg ! 0 ! 1 = 1" "pvg ! 0 ! 2 = 1" "pvg ! 0 ! 3 = 1"
    using c [of 0] c [of 1] c [of 2] c [of 3]
    by (simp_all add: count_pixels_def pixels_def upt_rec numeral_2_eq_2 numeral_3_eq_3)
  with a st pvg(1) show ?thesis by simp
qed

text \<open>
  Claim C8. A frame whose segmentation mask is entirely false is no error:
  \<open>compute_pvg\<close> returns, and the row of that frame is all zeros.
\<close>

theorem compute_pvg_empty_mask:
  assumes "0 \<le> steps" "is_array3 T h w s" "is_array3 T' h w labels" "T \<le> T'"
    and "t < T" "\<forall>y<h. \<forall>x<w. \<not> s ! t ! y ! x"
  shows "\<exists>pvg. compute_pvg s labels steps = Inr pvg \<and> pvg ! t = replicate (nat (steps * 2)) 0"
proof -
  from compute_pvg_cells [OF assms(1-4)] obtain pvg where
    pvg: "compute_pvg s labels steps = Inr pvg" "is_array2 T (nat (steps * 2)) pvg"
      "\<forall>t<T. \<forall>b<nat (steps * 2).
          pvg ! t ! b = count_pixels h w (s ! t) (labels ! t) (label_of_bin steps b)"
    by blast
  have "length (pvg ! t) = nat (steps * 2)"
    using pvg(2) assms(5) by (simp add: is_array2_iff)
  moreover have "pvg ! t ! b = 0" if "b < nat (steps * 2)" for b
    using pvg(3) assms(5) that count_pixels_empty [OF assms(6)] by simp
  ultimately have "pvg ! t = replicate (nat (steps * 2)) 0"
    by (simp add: list_eq_iff_nth_eq)
  with pvg(1) show ?thesis by blast
qed

theorem compute_pvg_empty_mask_witness:
  "(0::int) \<le> 1 \<and> is_array3 2 1 2 [[[False, False]], [[True, False]]] \<and>
   is_array3 2 1 2 [[[1, - 1 :: int]], [[1, - 1]]] \<and>
   (\<exists>pvg. compute_pvg [[[False, False]], [[True, False]]] [[[1, - 1]], [[1, - 1]]] 1 = Inr pvg \<and>
          pvg ! 0 = [0, 0])"
proof -
  have a: "is_array3 2 1 2 [[[False, False]], [[True, False]]]"
    "is_array3 2 1 2 [[[1, - 1 :: int]], [[1, - 1]]]"
    by (simp_all add: is_array3_def is_array2_def)
  have e: "\<forall>y<1. \<forall>x<2. \<not> [[[False, False]], [[True, False]]] ! 0 ! y ! x"
    by (simp add: less_Suc_eq numeral_2_eq_2)
  from compute_pvg_empty_mask [OF _ a _ _ e, of 1] a show ?thesis
    by (simp add: numeral_2_eq_2)
qed

text \<open>
  Claim C1 (the row of every frame sums to the number of true pixels of its mask)
  fails on the code for a label stack of the classifier. With 256 samples the
  classifier labels the pixel \<open>(0, 0)\<close> of a \<open>1 \<times> 1\<close> image 0; no bin has the label 0,
  so the row of a mask with one true pixel is all zeros.
\<close>

theorem compute_pvg_row_sum_256:
  "get_labels 0 255 1 (- 510) (1, 1) 256 = Inr [[0]] \<and>
   compute_pvg [[[True]]] [map (map sint) [[0 :: int8]]] 256 = Inr [replicate 512 0] \<and>
   sum_list (replicate 512 (0::nat)) = 0 \<and> popcount 1 1 [[True]] = 1"
  using get_labels_wrap_256 [of 256] compute_pvg_zero_label
  by (simp add: popcount_def pixels_def)

subsection \<open>Inputs and results on the store\<close>

text \<open>
  Claim C9. No stage mutates its inputs. On a store \<open>h\<close>, \<open>get_labels\<close> and
  \<open>compute_pvg\<close> leave every object of \<open>h\<close> at its address with its value (the store
  after the call extends \<open>h\<close>, also when the call raises): \<open>compute_pvg\<close> only reads the
  segmentation stack at \<open>s\<close> and the label stack at \<open>labels\<close>. A returned array is newly
  allocated: its address is none of \<open>h\<close>. Both calls return what the functions on
  values return.
\<close>

theorem inputs_unchanged:
  "(case get_labels_st x_low x_high coef intercept im_shape steps h of
      (r, h') \<Rightarrow> extends h h' \<and>
        (case get_labels x_low x_high coef intercept im_shape steps of
           Inl e \<Rightarrow> r = Inl e
         | Inr L \<Rightarrow> (\<exists>a. r = Inr a \<and> length h \<le> a \<and> a < length h' \<and> h' ! a = Int8_2 L))) \<and>
   (s < length h \<and> labels < length h \<longrightarrow>
      (case compute_pvg_st s labels steps h of
         (r, h') \<Rightarrow> extends h h' \<and> h' ! s = h ! s \<and> h' ! labels = h ! labels \<and>
           (\<forall>a. r = Inr a \<longrightarrow> length h \<le> a \<and> a < length h') \<and>
           (\<forall>sv lv. h ! s = Bool3 sv \<and> h ! labels = Int3 lv \<longrightarrow>
              (case compute_pvg sv lv steps of
                 Inl e \<Rightarrow> r = Inl e
               | Inr pvg \<Rightarrow> r = Inr (length h) \<and> h' ! length h = Count2 pvg))))"
proof -
  have pvg: "case compute_pvg_st s labels steps h of
         (r, h') \<Rightarrow> extends h h' \<and> h' ! s = h ! s \<and> h' ! labels = h ! labels \<and>
           (\<forall>a. r = Inr a \<longrightarrow> length h \<le> a \<and> a < length h') \<and>
           (\<forall>sv lv. h ! s = Bool3 sv \<and> h ! labels = Int3 lv \<longrightarrow>
              (case compute_pvg sv lv steps of
                 Inl e \<Rightarrow> r = Inl e
               | Inr pvg \<Rightarrow> r = Inr (length h) \<and> h' ! length h = Count2 pvg))"
    if a: "s < length h" "labels < length h"
  proof (cases "\<exists>sv lv. h ! s = Bool3 sv \<and> h ! labels = Int3 lv")
    case False
    from compute_pvg_st_type_error [OF False] False show ?thesis
      by (auto simp: extends_refl)
  next
    case True
    then obtain sv lv where t: "h ! s = Bool3 sv" "h ! labels = Int3 lv" by blast
    obtain r h' where rh: "compute_pvg_st s labels steps h = (r, h')"
      by (cases "compute_pvg_st s labels steps h") auto
    from compute_pvg_st_eq [OF a t, of steps] rh
    have e: "extends h h'"
      and c: "case compute_pvg sv lv steps of
                Inl e \<Rightarrow> r = Inl e
              | Inr pvg \<Rightarrow> r = Inr (length h) \<and> length h < length h' \<and> h' ! length h = Count2 pvg"
      by simp_all
    have "\<forall>a. r = Inr a \<longrightarrow> length h \<le> a \<and> a < length h'"
      using c by (cases "compute_pvg sv lv steps") auto
    moreover have "case compute_pvg sv lv steps of
                 Inl e \<Rightarrow> r = Inl e
               | Inr pvg \<Rightarrow> r = Inr (length h) \<and> h' ! length h = Count2 pvg"
      using c by (cases "compute_pvg sv lv steps") auto
    ultimately show ?thesis
      using e extends_nth [OF e a(1)] extends_nth [OF e a(2)] t by (simp add: rh)
  qed
  show ?thesis
  proof (intro conjI impI)
    show "case get_labels_st x_low x_high coef intercept im_shape steps h of
      (r, h') \<Rightarrow> extends h h' \<and>
        (case get_labels x_low x_high coef intercept im_shape steps of
           Inl e \<Rightarrow> r = Inl e
         | Inr L \<Rightarrow> (\<exists>a. r = Inr a \<and> length h \<le> a \<and> a < length h' \<and> h' ! a = Int8_2 L))"
      by (rule get_labels_st_eq)
  next
    assume "s < length h \<and> labels < length h"
    then show "case compute_pvg_st s labels steps h of
         (r, h') \<Rightarrow> extends h h' \<and> h' ! s = h ! s \<and> h' ! labels = h ! labels \<and>
           (\<forall>a. r = Inr a \<longrightarrow> length h \<le> a \<and> a < length h') \<and>
           (\<forall>sv lv. h ! s = Bool3 sv \<and> h ! labels = Int3 lv \<longrightarrow>
              (case compute_pvg sv lv steps of
                 Inl e \<Rightarrow> r = Inl e
               | Inr pvg \<Rightarrow> r = Inr (length h) \<and> h' ! length h = Count2 pvg))"
      using pvg by simp
  qed
qed

theorem inputs_unchanged_witness:
  "(\<exists>h'. compute_pvg_st 0 1 1 [Bool3 [[[True, False]]], Int3 [[[1, - 1]]]] = (Inr 2, h') \<and>
         take 2 h' = [Bool3 [[[True, False]]], Int3 [[[1, - 1]]]] \<and> h' ! 2 = Count2 [[1, 0]]) \<and>
   (\<exists>a h'. get_labels_st 0 1 1 0 (1, 1) 1 [Bool3 [[[True, False]]], Int3 [[[1, - 1]]]] = (Inr a, h') \<and>
         2 \<le> a \<and> take 2 h' = [Bool3 [[[True, False]]], Int3 [[[1, - 1]]]])"
proof -
  let ?h = "[Bool3 [[[True, False]]], Int3 [[[1, - 1]]]]"
  note inst = inputs_unchanged [where h = ?h and x_low = 0 and x_high = 1 and coef = 1
      and intercept = 0 and im_shape = "(1, 1)" and steps = 1 and s = 0 and labels = 1]
  have cp: "compute_pvg [[[True, False]]] [[[1, - 1]]] 1 = Inr [[1, 0]]"
    by (simp add: compute_pvg_def pvg_frame_def all_steps_def and2_def shape2_def
        broadcast_dim_def bget_def eq2_def sum2_def set2_def zeros2_def range_py_def
        upto_rec1 [of 1] upto_rec1 [of 2] upt_rec numeral_2_eq_2 Let_def)
  obtain L where gl: "get_labels 0 1 1 0 (1, 1) 1 = Inr L"
    using get_labels_total [of 1 1 1 0 1 1 0] by auto
  obtain r h' where rh: "compute_pvg_st 0 1 1 ?h = (r, h')"
    by (cases "compute_pvg_st 0 1 1 ?h") auto
  obtain r2 h2 where rh2: "get_labels_st 0 1 1 0 (1, 1) 1 ?h = (r2, h2)"
    by (cases "get_labels_st 0 1 1 0 (1, 1) 1 ?h") auto
  from inst rh cp have "r = Inr 2" "extends ?h h'" "h' ! 2 = Count2 [[1, 0]]"
    by (simp_all add: numeral_2_eq_2)
  moreover from inst rh2 gl have "\<exists>a. r2 = Inr a \<and> 2 \<le> a" "extends ?h h2"
    by auto
  ultimately show ?thesis
    unfolding rh rh2 by (auto simp: extends_def numeral_2_eq_2)
qed

end
